theory Spec2Isabelle
  imports Complex_Main
begin

section \<open>Errors and numpy arrays\<close>

text \<open>
  The program is \<^verbatim>\<open>DFENSE_DataFilteringSmoothing.py\<close>. Its floating-point numbers
  are modelled as real numbers, a one-dimensional numpy array as a list and a two-dimensional
  array as the list of its rows. Python exceptions are values: \<open>Inl\<close> of the exception.
  Every matrix that occurs has at least one row, so the number of columns is read off the
  first row; the empty list stands for the array of shape \<open>(0, 0)\<close>.
\<close>

datatype error = ValueError string | IndexError string | ZeroDivisionError string

type_synonym vector = "real list"
type_synonym matrix = "real list list"

definition shape :: "matrix \<Rightarrow> nat \<times> nat" where
  "shape A = (length A, case A of [] \<Rightarrow> 0 | row # _ \<Rightarrow> length row)"

text \<open>\<^verbatim>\<open>np.zeros(k)\<close> raises on a negative length.\<close>

definition np_zeros :: "int \<Rightarrow> error + vector" where
  "np_zeros k =
     (if k < 0 then Inl (ValueError ''negative dimensions are not allowed'')
      else Inr (replicate (nat k) 0))"

text \<open>\<^verbatim>\<open>v[:r]\<close>: a negative bound counts from the end.\<close>

definition slice_to :: "'a list \<Rightarrow> int \<Rightarrow> 'a list" where
  "slice_to v r = (if 0 \<le> r then take (nat r) v else take (nat (int (length v) + r)) v)"

definition np_diag :: "vector \<Rightarrow> matrix" where
  "np_diag v = map (\<lambda>i. map (\<lambda>j. if i = j then v ! i else 0) [0..<length v]) [0..<length v]"

definition column :: "matrix \<Rightarrow> nat \<Rightarrow> vector" where
  "column B j = map (\<lambda>row. row ! j) B"

definition dot :: "vector \<Rightarrow> vector \<Rightarrow> real" where
  "dot u v = sum_list (map2 (*) u v)"

text \<open>\<^verbatim>\<open>A @ B\<close> on two-dimensional arrays: the inner dimensions must agree.\<close>

definition matmul :: "matrix \<Rightarrow> matrix \<Rightarrow> error + matrix" where
  "matmul A B =
     (if snd (shape A) \<noteq> fst (shape B)
      then Inl (ValueError ''matmul: mismatch in core dimension'')
      else Inr (map (\<lambda>row. map (\<lambda>j. dot row (column B j)) [0..<snd (shape B)]) A))"

text \<open>
  \<^verbatim>\<open>np.lib.stride_tricks.sliding_window_view(x, window_shape=w)\<close> on a one-dimensional
  array: numpy rejects a negative window and a window longer than the array, and returns the
  array of shape \<open>(N - w + 1, w)\<close> otherwise, also for \<open>w = 0\<close>.
\<close>

definition sliding_window_view :: "vector \<Rightarrow> int \<Rightarrow> error + matrix" where
  "sliding_window_view x w =
     (if w < 0 then Inl (ValueError ''window_shape cannot contain negative values'')
      else if int (length x) < w
      then Inl (ValueError ''window shape cannot be larger than input array shape'')
      else Inr (map (\<lambda>i. take (nat w) (drop i x)) [0..<nat (int (length x) - w + 1)]))"

text \<open>\<^verbatim>\<open>for i in range(n): body\<close> over a state, stopping at the first exception.\<close>

fun for_loop :: "'i list \<Rightarrow> ('i \<Rightarrow> 's \<Rightarrow> error + 's) \<Rightarrow> 's \<Rightarrow> error + 's" where
  "for_loop [] body s = Inr s"
| "for_loop (i # rest) body s =
     (case body i s of Inl e \<Rightarrow> Inl e | Inr s' \<Rightarrow> for_loop rest body s')"

section \<open>Diagonal averaging (lines 79 to 86 of \<^verbatim>\<open>denoise_svd\<close>)\<close>

text \<open>
  The loop body \<^verbatim>\<open>x_denoised[i+j] += H_denoised[i, j]; count[i+j] += 1\<close>. The state is
  the pair of arrays; an index beyond the arrays raises IndexError.
\<close>

definition accumulate :: "matrix \<Rightarrow> nat \<Rightarrow> nat \<Rightarrow> vector \<times> vector \<Rightarrow> error + vector \<times> vector" where
  "accumulate H i j st =
     (case st of (x_denoised, count) \<Rightarrow>
        if i + j < length x_denoised \<and> i + j < length count
        then Inr (x_denoised[i + j := x_denoised ! (i + j) + H ! i ! j],
                  count[i + j := count ! (i + j) + 1])
        else Inl (IndexError ''index out of bounds''))"

definition diagonal_accumulate :: "nat \<Rightarrow> matrix \<Rightarrow> error + vector \<times> vector" where
  "diagonal_accumulate N H_denoised =
     for_loop [0..<fst (shape H_denoised)]
       (\<lambda>i. for_loop [0..<snd (shape H_denoised)] (accumulate H_denoised i))
       (replicate N 0, replicate N 0)"

text \<open>
  \<^verbatim>\<open>x_denoised = x_denoised / count\<close>, element by element. (Where a counter is zero
  numpy yields nan or inf and a warning, not an exception; for the shapes that occur with a
  window \<open>1 \<le> w \<le> N\<close> no counter is zero, as shown below.)
\<close>

definition diagonal_average :: "nat \<Rightarrow> matrix \<Rightarrow> error + vector" where
  "diagonal_average N H_denoised =
     (case diagonal_accumulate N H_denoised of
        Inl e \<Rightarrow> Inl e
      | Inr (x_denoised, count) \<Rightarrow> Inr (map2 (/) x_denoised count))"

section \<open>The optimal threshold coefficient\<close>

text \<open>
  \<^verbatim>\<open>optimal_svht_coef_sigma_known\<close>, with the square root of the reals. (For
  \<open>\<beta> \<ge> 0\<close> both radicands are positive and the denominator is not zero, so that
  numpy's nan does not arise.)
\<close>

definition optimal_svht_coef_sigma_known :: "real \<Rightarrow> real" where
  "optimal_svht_coef_sigma_known beta =
     (let w_val = (8 * beta) / (beta + 1 + sqrt (beta ^ 2 + 14 * beta + 1));
          lambda_star = sqrt (2 * (beta + 1) + w_val)
      in lambda_star)"

text \<open>
  \<^verbatim>\<open>scipy.integrate.quad(f, a, b)\<close> is a library routine: the model takes it as a
  parameter that returns the value of the integral (the error estimate is dropped by the
  source).
\<close>

type_synonym quad_fun = "(real \<Rightarrow> real) \<Rightarrow> real \<Rightarrow> real \<Rightarrow> real"

text \<open>The local function \<^verbatim>\<open>f\<close> of \<^verbatim>\<open>inc_mar_pas\<close>.\<close>

definition inc_mar_pas_f :: "real \<Rightarrow> nat \<Rightarrow> real \<Rightarrow> real" where
  "inc_mar_pas_f beta gamma x =
     (let topSpec = (1 + sqrt beta) ^ 2;
          botSpec = (1 - sqrt beta) ^ 2;
          val = (if (topSpec - x) * (x - botSpec) > 0
                 then sqrt ((topSpec - x) * (x - botSpec)) / (beta * x) / (2 * pi)
                 else 0)
      in if gamma \<noteq> 0 then x ^ gamma * val else val)"

definition inc_mar_pas :: "quad_fun \<Rightarrow> real \<Rightarrow> real \<Rightarrow> nat \<Rightarrow> error + real" where
  "inc_mar_pas quad x0 beta gamma =
     (if beta > 1 then Inl (ValueError ''beta beyond valid range.'')
      else
        let topSpec = (1 + sqrt beta) ^ 2;
            I = quad (inc_mar_pas_f beta gamma) x0 topSpec
        in Inr I)"

text \<open>The local function \<^verbatim>\<open>marpas\<close> of \<^verbatim>\<open>median_marcenko_pastur\<close>.\<close>

definition marpas :: "quad_fun \<Rightarrow> real \<Rightarrow> real \<Rightarrow> error + real" where
  "marpas quad beta x =
     (case inc_mar_pas quad x beta 0 of Inl e \<Rightarrow> Inl e | Inr I \<Rightarrow> Inr (1 - I))"

text \<open>
  \<^verbatim>\<open>np.linspace(a, b, n)\<close> for \<open>n \<ge> 2\<close>: \<open>n - 1\<close> equal steps from \<open>a\<close>, the last point
  set to \<open>b\<close>.
\<close>

definition np_linspace :: "real \<Rightarrow> real \<Rightarrow> nat \<Rightarrow> vector" where
  "np_linspace a b n = map (\<lambda>i. a + real i * ((b - a) / real (n - 1))) [0..<n - 1] @ [b]"

text \<open>The list comprehension \<^verbatim>\<open>[marpas(x) for x in x_vals]\<close>: the first exception wins.\<close>

fun map_raise :: "('a \<Rightarrow> error + 'b) \<Rightarrow> 'a list \<Rightarrow> error + 'b list" where
  "map_raise f [] = Inr []"
| "map_raise f (x # xs) =
     (case f x of
        Inl e \<Rightarrow> Inl e
      | Inr y \<Rightarrow> (case map_raise f xs of Inl e \<Rightarrow> Inl e | Inr ys \<Rightarrow> Inr (y # ys)))"

text \<open>Boolean-mask indexing \<^verbatim>\<open>x_vals[mask]\<close>, and \<^verbatim>\<open>np.max\<close>, \<^verbatim>\<open>np.min\<close> of a
  non-empty array (the source guards both with \<^verbatim>\<open>np.any\<close>).\<close>

definition mask_select :: "vector \<Rightarrow> bool list \<Rightarrow> vector" where
  "mask_select xs keep = map fst (filter snd (zip xs keep))"

definition np_max :: "vector \<Rightarrow> real" where
  "np_max xs = fold max (tl xs) (hd xs)"

definition np_min :: "vector \<Rightarrow> real" where
  "np_min xs = fold min (tl xs) (hd xs)"

text \<open>
  The \<^verbatim>\<open>while\<close> loop of \<^verbatim>\<open>median_marcenko_pastur\<close> on its three variables
  \<^verbatim>\<open>change\<close>, \<^verbatim>\<open>lobnd\<close>, \<^verbatim>\<open>hibnd\<close>. The body resets \<^verbatim>\<open>change\<close> and sets it again
  when a sampled value lies below 0.5 or above 0.5, so its value at the end of the body is the
  disjunction of the two \<^verbatim>\<open>np.any\<close> tests. The loop may not return: its value is then
  \<open>None\<close>.
\<close>

partial_function (option) median_loop ::
  "(real \<Rightarrow> error + real) \<Rightarrow> bool \<Rightarrow> real \<Rightarrow> real \<Rightarrow> (error + real \<times> real) option" where
  "median_loop F change lobnd hibnd =
     (if change \<and> hibnd - lobnd > 0.001 then
        (let x_vals = np_linspace lobnd hibnd 5 in
         case map_raise F x_vals of
           Inl e \<Rightarrow> Some (Inl e)
         | Inr y_vals \<Rightarrow>
             (let any_below = list_ex (\<lambda>y. y < 0.5) y_vals;
                  any_above = list_ex (\<lambda>y. y > 0.5) y_vals
              in median_loop F (any_below \<or> any_above)
                   (if any_below
                    then np_max (mask_select x_vals (map (\<lambda>y. y < 0.5) y_vals)) else lobnd)
                   (if any_above
                    then np_min (mask_select x_vals (map (\<lambda>y. y > 0.5) y_vals)) else hibnd)))
      else Some (Inr (lobnd, hibnd)))"

definition median_marcenko_pastur :: "quad_fun \<Rightarrow> real \<Rightarrow> (error + real) option" where
  "median_marcenko_pastur quad beta =
     (let topSpec = (1 + sqrt beta) ^ 2;
          botSpec = (1 - sqrt beta) ^ 2
      in case median_loop (marpas quad beta) True botSpec topSpec of
           None \<Rightarrow> None
         | Some (Inl e) \<Rightarrow> Some (Inl e)
         | Some (Inr (lobnd, hibnd)) \<Rightarrow> Some (Inr ((hibnd + lobnd) / 2)))"

definition optimal_svht_coef_sigma_unknown :: "quad_fun \<Rightarrow> real \<Rightarrow> (error + real) option" where
  "optimal_svht_coef_sigma_unknown quad beta =
     (let coef = optimal_svht_coef_sigma_known beta in
      case median_marcenko_pastur quad beta of
        None \<Rightarrow> None
      | Some (Inl e) \<Rightarrow> Some (Inl e)
      | Some (Inr MPmedian) \<Rightarrow> Some (Inr (coef / sqrt MPmedian)))"

definition optimal_svht_coef :: "quad_fun \<Rightarrow> real \<Rightarrow> bool \<Rightarrow> (error + real) option" where
  "optimal_svht_coef quad beta sigma_known =
     (if sigma_known then Some (Inr (optimal_svht_coef_sigma_known beta))
      else optimal_svht_coef_sigma_unknown quad beta)"

section \<open>\<^verbatim>\<open>denoise_svd\<close>\<close>

text \<open>
  \<^verbatim>\<open>np.linalg.svd(H, full_matrices=False)\<close> is a library routine: the model takes it as
  a parameter that returns the triple \<open>(U, S, Vt)\<close>. What the theorems need of it is
  stated as a hypothesis on the triple returned for the matrix at hand.
\<close>

type_synonym svd_fun = "matrix \<Rightarrow> matrix \<times> vector \<times> matrix"

text \<open>
  \<^verbatim>\<open>np.median\<close> of a non-empty array. (Of an empty array numpy returns nan, which the
  reals do not have; \<open>S\<close> is empty only for the window \<open>w = 0\<close>.)
\<close>

definition np_median :: "vector \<Rightarrow> real" where
  "np_median xs =
     (let s = sort xs; n = length s
      in if odd n then s ! (n div 2) else (s ! (n div 2 - 1) + s ! (n div 2)) / 2)"

text \<open>Lines 50 to 57: the guard on the window and the Hankel matrix.\<close>

definition hankel_embedding :: "vector \<Rightarrow> int \<Rightarrow> error + matrix" where
  "hankel_embedding x w =
     (let N = int (length x)
      in if w > N
         then Inl (ValueError ''w cannot be greater than the length of the time series.'')
         else sliding_window_view x w)"

text \<open>Lines 63 to 70: the rank, computed when the caller gives none, checked otherwise.\<close>

definition select_rank ::
  "quad_fun \<Rightarrow> matrix \<Rightarrow> vector \<Rightarrow> int \<Rightarrow> int option \<Rightarrow> (error + int) option" where
  "select_rank quad H S w r =
     (case r of
        None \<Rightarrow>
          (case shape H of (m, n) \<Rightarrow>
             if max m n = 0 then Some (Inl (ZeroDivisionError ''division by zero''))
             else
               (let beta = real (min m n) / real (max m n) in
                (case optimal_svht_coef quad beta False of
                   None \<Rightarrow> None
                 | Some (Inl e) \<Rightarrow> Some (Inl e)
                 | Some (Inr coef) \<Rightarrow>
                     (let thresh = coef * np_median S
                      in Some (Inr (int (length (filter (\<lambda>s. s > thresh) S))))))))
      | Some r \<Rightarrow>
          if r \<le> 0 \<or> r > w
          then Some (Inl (ValueError ''r must be a positive integer and no greater than w.''))
          else Some (Inr r))"

text \<open>Lines 73 to 76: the truncated singular values and the product \<^verbatim>\<open>U @ S_r @ Vt\<close>.\<close>

definition truncate_reconstruct :: "matrix \<Rightarrow> vector \<Rightarrow> matrix \<Rightarrow> int \<Rightarrow> error + matrix" where
  "truncate_reconstruct U S Vt r =
     (case np_zeros (int (length S) - r) of
        Inl e \<Rightarrow> Inl e
      | Inr zs \<Rightarrow>
          (let S_r = np_diag (slice_to S r @ zs) in
           (case matmul U S_r of
              Inl e \<Rightarrow> Inl e
            | Inr US \<Rightarrow> matmul US Vt)))"

definition denoise_svd ::
  "svd_fun \<Rightarrow> quad_fun \<Rightarrow> vector \<Rightarrow> int \<Rightarrow> int option \<Rightarrow> (error + vector \<times> int) option" where
  "denoise_svd svd quad x w r =
     (case hankel_embedding x w of
        Inl e \<Rightarrow> Some (Inl e)
      | Inr H \<Rightarrow>
          (case svd H of (U, S, Vt) \<Rightarrow>
             (case select_rank quad H S w r of
                None \<Rightarrow> None
              | Some (Inl e) \<Rightarrow> Some (Inl e)
              | Some (Inr r') \<Rightarrow>
                  (case truncate_reconstruct U S Vt r' of
                     Inl e \<Rightarrow> Some (Inl e)
                   | Inr H_denoised \<Rightarrow>
                       (case diagonal_average (length x) H_denoised of
                          Inl e \<Rightarrow> Some (Inl e)
                        | Inr x_denoised \<Rightarrow> Some (Inr (x_denoised, r')))))))"

section \<open>The smoothing stage of \<^verbatim>\<open>main\<close> (lines 287 to 297, one column)\<close>

text \<open>
  \<^verbatim>\<open>scipy.signal.savgol_filter\<close> and \<^verbatim>\<open>scipy.interpolate.CubicSpline\<close> are library
  routines, taken as parameters: the filter returns an array or raises, the spline
  constructor returns the interpolant (a function of the abscissa) or raises.
\<close>

type_synonym savgol_fun = "vector \<Rightarrow> nat \<Rightarrow> nat \<Rightarrow> error + vector"
type_synonym spline_fun = "vector \<Rightarrow> vector \<Rightarrow> error + (real \<Rightarrow> real)"

definition Window :: int where "Window = 52"
definition Order :: nat where "Order = 3"
definition FrameLen :: nat where "FrameLen = 11"

text \<open>\<^verbatim>\<open>np.arange(start, stop, step)\<close> for a positive step.\<close>

definition np_arange :: "real \<Rightarrow> real \<Rightarrow> real \<Rightarrow> vector" where
  "np_arange start stop step =
     map (\<lambda>i. start + real i * step) [0..<nat \<lceil>(stop - start) / step\<rceil>]"

text \<open>The slice \<^verbatim>\<open>v[::2]\<close>.\<close>

fun every_second :: "'a list \<Rightarrow> 'a list" where
  "every_second [] = []"
| "every_second [x] = [x]"
| "every_second (x # y # rest) = x # every_second rest"

text \<open>
  The assignment \<^verbatim>\<open>data[:, col] = v\<close> into a column of \<open>Nepiweeks\<close> entries: the lengths
  must agree, except that a single value is broadcast.
\<close>

definition assign_column :: "nat \<Rightarrow> vector \<Rightarrow> error + vector" where
  "assign_column Nepiweeks v =
     (if length v = Nepiweeks then Inr v
      else if length v = 1 then Inr (replicate Nepiweeks (v ! 0))
      else Inl (ValueError ''could not broadcast input array''))"

text \<open>Lines 291 to 297 for one column \<^verbatim>\<open>data[:, col]\<close>.\<close>

definition spline_smoothing :: "spline_fun \<Rightarrow> vector \<Rightarrow> error + vector" where
  "spline_smoothing CubicSpline col =
     (let Nepiweeks = length col;
          time1 = np_arange 1 (real Nepiweeks + 1) 1;
          time2 = np_arange 1 (real Nepiweeks + 1) 0.5
      in case CubicSpline time1 col of
           Inl e \<Rightarrow> Inl e
         | Inr cs \<Rightarrow>
             (let interp_vals = map cs time2
              in assign_column Nepiweeks (every_second interp_vals)))"

text \<open>Lines 287 to 288, then lines 291 to 297, for the denoised series of one column.\<close>

definition smoothing_stage :: "savgol_fun \<Rightarrow> spline_fun \<Rightarrow> vector \<Rightarrow> error + vector" where
  "smoothing_stage savgol_filter CubicSpline denoised =
     (case savgol_filter denoised FrameLen Order of
        Inl e \<Rightarrow> Inl e
      | Inr filtered \<Rightarrow>
          (case assign_column (length denoised) filtered of
             Inl e \<Rightarrow> Inl e
           | Inr col \<Rightarrow> spline_smoothing CubicSpline col))"

section \<open>The median solver as the specification words it\<close>

text \<open>
  The specification's account of the solver, kept apart from the source's loop above: the
  density \<open>g\<close>, the function \<open>F(x) = 1 - \<integral> g\<close> from \<open>x\<close> to \<open>topSpec\<close> (through the same
  quadrature routine), and the iteration that samples \<open>F\<close> at 5 evenly spaced points,
  moves \<open>lo\<close> to the largest sampled point with \<open>F < 0.5\<close> and \<open>hi\<close> to the smallest
  sampled point with \<open>F > 0.5\<close>, stops when \<open>hi - lo \<le> 0.001\<close> or when no bound moved,
  and returns the midpoint.
\<close>

definition spec_g :: "real \<Rightarrow> real \<Rightarrow> real" where
  "spec_g beta t =
     (if (1 - sqrt beta) ^ 2 \<le> t \<and> t \<le> (1 + sqrt beta) ^ 2
      then sqrt (((1 + sqrt beta) ^ 2 - t) * (t - (1 - sqrt beta) ^ 2)) / (2 * pi * beta * t)
      else 0)"

definition spec_F :: "quad_fun \<Rightarrow> real \<Rightarrow> real \<Rightarrow> real" where
  "spec_F quad beta x = 1 - quad (spec_g beta) x ((1 + sqrt beta) ^ 2)"

definition spec_samples :: "real \<Rightarrow> real \<Rightarrow> vector" where
  "spec_samples lo hi = map (\<lambda>i. lo + real i * (hi - lo) / 4) [0..<5]"

partial_function (option) spec_bisection :: "(real \<Rightarrow> real) \<Rightarrow> real \<Rightarrow> real \<Rightarrow> real option" where
  "spec_bisection F lo hi =
     (if hi - lo \<le> 0.001 then Some ((lo + hi) / 2)
      else
        let below = filter (\<lambda>x. F x < 0.5) (spec_samples lo hi);
            above = filter (\<lambda>x. F x > 0.5) (spec_samples lo hi);
            lo' = (if below = [] then lo else Max (set below));
            hi' = (if above = [] then hi else Min (set above))
        in if lo' = lo \<and> hi' = hi then Some ((lo + hi) / 2)
           else spec_bisection F lo' hi')"

definition spec_median :: "quad_fun \<Rightarrow> real \<Rightarrow> real option" where
  "spec_median quad beta =
     spec_bisection (spec_F quad beta) ((1 - sqrt beta) ^ 2) ((1 + sqrt beta) ^ 2)"

section \<open>Properties of the diagonal averaging\<close>

lemma for_loop_append:
  "for_loop (xs @ ys) body s =
     (case for_loop xs body s of Inl e \<Rightarrow> Inl e | Inr s' \<Rightarrow> for_loop ys body s')"
  by (induction xs arbitrary: s) (auto split: sum.splits)

lemma accumulate_row:
  assumes "length xd = N" "length cnt = N" "i + n \<le> N"
  shows "for_loop [0..<n] (accumulate H i) (xd, cnt) =
           Inr (map (\<lambda>k. xd ! k + (if i \<le> k \<and> k < i + n then H ! i ! (k - i) else 0)) [0..<N],
                map (\<lambda>k. cnt ! k + (if i \<le> k \<and> k < i + n then 1 else 0)) [0..<N])"
  using assms
proof (induction n)
  case 0
  then show ?case by (auto intro!: nth_equalityI)
next
  case (Suc n)
  have ih: "for_loop [0..<n] (accumulate H i) (xd, cnt) =
           Inr (map (\<lambda>k. xd ! k + (if i \<le> k \<and> k < i + n then H ! i ! (k - i) else 0)) [0..<N],
                map (\<lambda>k. cnt ! k + (if i \<le> k \<and> k < i + n then 1 else 0)) [0..<N])"
    using Suc by simp
  have in_range: "i + n < N" using Suc.prems by simp
  show ?case
    unfolding upt_Suc_append [OF le0] for_loop_append ih
    using in_range
    by (auto simp: accumulate_def intro!: nth_equalityI simp: nth_list_update)
qed

lemma accumulate_rows:
  assumes "length xd = N" "length cnt = N" "m + n \<le> Suc N" "1 \<le> n"
  shows "for_loop [0..<m] (\<lambda>i. for_loop [0..<n] (accumulate H i)) (xd, cnt) =
           Inr (map (\<lambda>k. xd ! k + (\<Sum>i\<leftarrow>[0..<m]. if i \<le> k \<and> k < i + n then H ! i ! (k - i) else 0)) [0..<N],
                map (\<lambda>k. cnt ! k + (\<Sum>i\<leftarrow>[0..<m]. if i \<le> k \<and> k < i + n then 1 else 0)) [0..<N])"
  using assms
proof (induction m)
  case 0
  then show ?case by (auto intro!: nth_equalityI)
next
  case (Suc m)
  let ?xd = "map (\<lambda>k. xd ! k + (\<Sum>i\<leftarrow>[0..<m]. if i \<le> k \<and> k < i + n then H ! i ! (k - i) else 0)) [0..<N]"
  let ?cnt = "map (\<lambda>k. cnt ! k + (\<Sum>i\<leftarrow>[0..<m]. if i \<le> k \<and> k < i + n then 1 else 0)) [0..<N]"
  have ih: "for_loop [0..<m] (\<lambda>i. for_loop [0..<n] (accumulate H i)) (xd, cnt) = Inr (?xd, ?cnt)"
    using Suc by simp
  have row: "for_loop [0..<n] (accumulate H m) (?xd, ?cnt) =
           Inr (map (\<lambda>k. ?xd ! k + (if m \<le> k \<and> k < m + n then H ! m ! (k - m) else 0)) [0..<N],
                map (\<lambda>k. ?cnt ! k + (if m \<le> k \<and> k < m + n then 1 else 0)) [0..<N])"
    by (rule accumulate_row) (use Suc.prems in simp_all)
  show ?case
    unfolding upt_Suc_append [OF le0] for_loop_append ih
    by (auto simp: row cong: if_cong)
qed

lemma count_rows:
  "(\<Sum>i\<leftarrow>[0..<m]. if i \<le> k \<and> k < i + n then (1::real) else 0) = real (min m (Suc k) - (Suc k - n))"
proof (induction m)
  case 0
  show ?case by simp
next
  case (Suc m)
  have "min (Suc m) (Suc k) - (Suc k - n) = (min m (Suc k) - (Suc k - n)) + (if m \<le> k \<and> k < m + n then 1 else 0)"
    by (auto simp: min_def)
  then show ?case using Suc by simp
qed

lemma count_closed:
  assumes "1 \<le> w" "w \<le> N" "k < N"
  shows "min (N - w + 1) (Suc k) - (Suc k - w) = min (k + 1) (min w (min (N - k) (N - w + 1)))"
  using assms by (auto simp: min_def)

text \<open>
  C7. For a window \<open>1 \<le> w \<le> N\<close> and a matrix of shape \<open>(N - w + 1, w)\<close>, the double loop
  returns without an exception, and the counter it leaves at every output index \<open>i < N\<close> is
  \<open>min (i + 1, w, N - i, N - w + 1)\<close>, which is at least 1, so that the division that follows
  never divides by zero. For \<open>N = 10\<close>, \<open>w = 3\<close> the counters are 1 at positions 0 and 9
  and 3 at positions 2 to 7.
\<close>

theorem diagonal_counts:
  assumes "1 \<le> w" and "w \<le> N" and "shape H = (N - w + 1, w)"
  shows "\<exists>acc count. diagonal_accumulate N H = Inr (acc, count) \<and> length count = N \<and>
           (\<forall>i<N. count ! i = real (min (i + 1) (min w (min (N - i) (N - w + 1)))) \<and>
                   1 \<le> count ! i)"
proof -
  have run: "diagonal_accumulate N H =
      Inr (map (\<lambda>k. replicate N 0 ! k +
                  (\<Sum>i\<leftarrow>[0..<N - w + 1]. if i \<le> k \<and> k < i + w then H ! i ! (k - i) else 0)) [0..<N],
           map (\<lambda>k. replicate N 0 ! k +
                  (\<Sum>i\<leftarrow>[0..<N - w + 1]. if i \<le> k \<and> k < i + w then 1 else 0)) [0..<N])"
    unfolding diagonal_accumulate_def assms(3) fst_conv snd_conv
    by (rule accumulate_rows) (use assms in simp_all)
  let ?count = "map (\<lambda>k. replicate N 0 ! k +
                  (\<Sum>i\<leftarrow>[0..<N - w + 1]. if i \<le> k \<and> k < i + w then (1::real) else 0)) [0..<N]"
  have val: "?count ! i = real (min (i + 1) (min w (min (N - i) (N - w + 1))))" if "i < N" for i
  proof -
    have "?count ! i = real (min (N - w + 1) (Suc i) - (Suc i - w))"
      using that by (simp only: nth_map_upt count_rows nth_replicate minus_nat.diff_0 add_0 add_0_right) 
    also have "min (N - w + 1) (Suc i) - (Suc i - w) = min (i + 1) (min w (min (N - i) (N - w + 1)))"
      using assms(1,2) that by (rule count_closed)
    finally show ?thesis .
  qed
  have pos: "1 \<le> ?count ! i" if "i < N" for i
  proof -
    have "1 \<le> min (i + 1) (min w (min (N - i) (N - w + 1)))"
      using assms that by simp
    then show ?thesis unfolding val [OF that] by simp
  qed
  have "length ?count = N" by simp
  with run val pos show ?thesis by blast
qed

theorem diagonal_counts_witness:
  "\<exists>acc count. diagonal_accumulate 10 (replicate 8 [0, 0, 0]) = Inr (acc, count) \<and>
     length count = 10 \<and> count ! 0 = 1 \<and> count ! 9 = 1 \<and> count ! 2 = 3 \<and> count ! 3 = 3 \<and>
     count ! 4 = 3 \<and> count ! 5 = 3 \<and> count ! 6 = 3 \<and> count ! 7 = 3"
proof -
  have sh: "shape (replicate 8 [0, 0, 0]) = (10 - 3 + 1, 3)"
    by (simp add: shape_def numeral_eq_Suc)
  from diagonal_counts [of 3 10 "replicate 8 [0, 0, 0]", OF _ _ sh]
  obtain acc count where
    run: "diagonal_accumulate 10 (replicate 8 [0, 0, 0]) = Inr (acc, count)"
    and len: "length count = 10"
    and cnt: "\<And>i. i < 10 \<Longrightarrow> count ! i = real (min (i + 1) (min 3 (min (10 - i) (10 - 3 + 1))))"
    by auto
  have "count ! 0 = 1" "count ! 9 = 1" "count ! 2 = 3" "count ! 3 = 3"
    "count ! 4 = 3" "count ! 5 = 3" "count ! 6 = 3" "count ! 7 = 3"
    using cnt [of 0] cnt [of 9] cnt [of 2] cnt [of 3] cnt [of 4] cnt [of 5] cnt [of 6] cnt [of 7]
    by simp_all
  with run len show ?thesis by simp
qed

section \<open>The Hankel embedding\<close>

lemma hankel_shape:
  assumes "1 \<le> w" "w \<le> int (length x)"
  shows "shape (map (\<lambda>i. take (nat w) (drop i x)) [0..<nat (int (length x) - w + 1)])
           = (nat (int (length x) - w + 1), nat w)"
proof -
  have "0 < nat (int (length x) - w + 1)" using assms by simp
  then have "[0..<nat (int (length x) - w + 1)] = 0 # [1..<nat (int (length x) - w + 1)]"
    by (simp add: upt_conv_Cons)
  then show ?thesis using assms by (auto simp: shape_def min_def)
qed

text \<open>
  C8, as the code has it. The embedding step (lines 50 to 57) raises exactly when \<open>w > N\<close> or
  \<open>w < 0\<close>: the guard of line 52 raises its ValueError exactly when \<open>w > N\<close>, before the
  embedding is computed, and a negative window is refused by
  \<^verbatim>\<open>sliding_window_view\<close> at line 57. The window \<open>w = 0\<close> is not refused: the step
  returns the array of shape \<open>(N + 1, 0)\<close>. For every window \<open>1 \<le> w \<le> N\<close> the embedding
  is returned, has shape \<open>(N - w + 1, w)\<close>, and its row \<open>i\<close> is the slice of the series of
  length \<open>w\<close> that starts at \<open>i\<close>.
\<close>

theorem hankel_embedding_guard:
  fixes x :: vector and w :: int
  defines "N \<equiv> int (length x)"
  shows "((\<exists>e. hankel_embedding x w = Inl e) \<longleftrightarrow> w > N \<or> w < 0) \<and>
         (hankel_embedding x w =
            Inl (ValueError ''w cannot be greater than the length of the time series.'')
          \<longleftrightarrow> w > N) \<and>
         (w < 0 \<longrightarrow>
            hankel_embedding x w =
              Inl (ValueError ''window_shape cannot contain negative values'')) \<and>
         (w = 0 \<longrightarrow> hankel_embedding x w = Inr (replicate (length x + 1) [])) \<and>
         (1 \<le> w \<and> w \<le> N \<longrightarrow>
            (\<exists>H. hankel_embedding x w = Inr H \<and> shape H = (nat (N - w + 1), nat w) \<and>
                 (\<forall>i < nat (N - w + 1). H ! i = take (nat w) (drop i x) \<and>
                    (\<forall>j < nat w. H ! i ! j = x ! (i + j)))))"
proof (intro conjI impI)
  show "(\<exists>e. hankel_embedding x w = Inl e) \<longleftrightarrow> w > N \<or> w < 0"
    by (auto simp: hankel_embedding_def sliding_window_view_def N_def Let_def)
next
  show "(hankel_embedding x w =
            Inl (ValueError ''w cannot be greater than the length of the time series.''))
          \<longleftrightarrow> w > N"
    by (simp add: hankel_embedding_def sliding_window_view_def N_def Let_def)
next
  assume "w < 0"
  then show "hankel_embedding x w =
               Inl (ValueError ''window_shape cannot contain negative values'')"
    by (simp add: hankel_embedding_def sliding_window_view_def Let_def)
next
  assume "w = 0"
  then show "hankel_embedding x w = Inr (replicate (length x + 1) [])"
    by (simp add: hankel_embedding_def sliding_window_view_def Let_def map_replicate_const
        nat_add_distrib del: upt_Suc)
next
  assume w: "1 \<le> w \<and> w \<le> N"
  let ?H = "map (\<lambda>i. take (nat w) (drop i x)) [0..<nat (N - w + 1)]"
  have run: "hankel_embedding x w = Inr ?H"
    using w by (simp add: hankel_embedding_def sliding_window_view_def N_def Let_def)
  have sh: "shape ?H = (nat (N - w + 1), nat w)"
    using w hankel_shape [of w x] by (simp add: N_def)
  have rows: "?H ! i = take (nat w) (drop i x) \<and> (\<forall>j < nat w. ?H ! i ! j = x ! (i + j))"
    if "i < nat (N - w + 1)" for i
  proof -
    have "i \<le> length x" using that w unfolding N_def by linarith
    then show ?thesis using that by simp
  qed
  from run sh rows show "\<exists>H. hankel_embedding x w = Inr H \<and> shape H = (nat (N - w + 1), nat w) \<and>
                 (\<forall>i < nat (N - w + 1). H ! i = take (nat w) (drop i x) \<and>
                    (\<forall>j < nat w. H ! i ! j = x ! (i + j)))"
    by blast
qed

text \<open>
  C8 as stated fails at \<open>w = 0\<close>: no exception is raised, the embedding is the array of
  shape \<open>(N + 1, 0)\<close>.
\<close>

theorem hankel_embedding_window_zero: "hankel_embedding [1, 2] 0 = Inr [[], [], []]"
  by (simp add: hankel_embedding_def sliding_window_view_def upt_rec)

theorem hankel_embedding_guard_witness:
  "hankel_embedding [1, 2, 3] 4 =
      Inl (ValueError ''w cannot be greater than the length of the time series.'') \<and>
   hankel_embedding [1, 2, 3] (- 1) =
      Inl (ValueError ''window_shape cannot contain negative values'') \<and>
   hankel_embedding [1, 2, 3] 0 = Inr [[], [], [], []] \<and>
   (\<exists>H. hankel_embedding [1, 2, 3] 2 = Inr H \<and> shape H = (2, 2) \<and>
        H ! 0 = [1, 2] \<and> H ! 1 = [2, 3])"
proof -
  have "hankel_embedding [1, 2, 3] 4 =
      Inl (ValueError ''w cannot be greater than the length of the time series.'')"
    using hankel_embedding_guard [of "[1, 2, 3]" 4] by simp
  moreover have "hankel_embedding [1, 2, 3] (- 1) =
      Inl (ValueError ''window_shape cannot contain negative values'')"
    using hankel_embedding_guard [of "[1, 2, 3]" "- 1"] by simp
  moreover have "hankel_embedding [1, 2, 3] 0 = Inr [[], [], [], []]"
    using hankel_embedding_guard [of "[1, 2, 3]" 0] by (simp add: numeral_eq_Suc)
  moreover have "\<exists>H. hankel_embedding [1, 2, 3] 2 = Inr H \<and> shape H = (2, 2) \<and>
        H ! 0 = [1, 2] \<and> H ! 1 = [2, 3]"
    using hankel_embedding_guard [of "[1, 2, 3]" 2] by (auto simp: numeral_2_eq_2)
  ultimately show ?thesis by blast
qed

section \<open>The closed form of the coefficient\<close>

lemma known_at_one: "optimal_svht_coef_sigma_known 1 = 4 / sqrt 3"
proof -
  have "sqrt (16::real) = 4" by (rule real_sqrt_unique) simp_all
  then have "optimal_svht_coef_sigma_known 1 = sqrt (16 / 3)"
    by (simp add: optimal_svht_coef_sigma_known_def Let_def)
  then show ?thesis by (simp add: real_sqrt_divide \<open>sqrt 16 = 4\<close>)
qed

lemma known_at_one_bounds:
  "2.3094 < optimal_svht_coef_sigma_known 1" "optimal_svht_coef_sigma_known 1 < 2.3095"
proof -
  have sq: "sqrt (16::real) = 4" by (rule real_sqrt_unique) simp_all
  have v: "optimal_svht_coef_sigma_known 1 = sqrt (16 / 3)"
    using sq by (simp add: optimal_svht_coef_sigma_known_def Let_def)
  have "(2.3094::real) ^ 2 < 16 / 3" by (simp add: power2_eq_square)
  then have "sqrt ((2.3094::real) ^ 2) < sqrt (16 / 3)" by (simp only: real_sqrt_less_iff)
  then show "2.3094 < optimal_svht_coef_sigma_known 1" unfolding v by simp
  have "16 / 3 < (2.3095::real) ^ 2" by (simp add: power2_eq_square)
  then have "sqrt (16 / 3) < sqrt ((2.3095::real) ^ 2)" by (simp only: real_sqrt_less_iff)
  then show "optimal_svht_coef_sigma_known 1 < 2.3095" unfolding v by simp
qed

text \<open>
  C4 as stated fails at its reference constant: at \<open>\<beta> = 1\<close> the coefficient is below 2.31,
  not about 2.8582.
\<close>

theorem sigma_known_at_one_not_reference: "optimal_svht_coef_sigma_known 1 < 2.31"
  using known_at_one_bounds(2) by simp

text \<open>
  C4, as the code has it. For every \<open>\<beta>\<close> in \<open>(0, 1]\<close> both radicands and the denominator
  of the closed form are positive, \<^verbatim>\<open>optimal_svht_coef\<close> with \<^verbatim>\<open>sigma_known=True\<close>
  returns the closed form, and the value is positive. At \<open>\<beta> = 1\<close> the value is
  \<open>4 / sqrt 3\<close>, between 2.3094 and 2.3095.
\<close>

theorem sigma_known_formula:
  assumes "0 < beta" and "beta \<le> 1"
  shows "0 < beta ^ 2 + 14 * beta + 1 \<and>
         0 < beta + 1 + sqrt (beta ^ 2 + 14 * beta + 1) \<and>
         0 < 2 * (beta + 1) + (8 * beta) / (beta + 1 + sqrt (beta ^ 2 + 14 * beta + 1)) \<and>
         optimal_svht_coef quad beta True =
           Some (Inr (sqrt (2 * (beta + 1) +
                            (8 * beta) / (beta + 1 + sqrt (beta ^ 2 + 14 * beta + 1))))) \<and>
         0 < sqrt (2 * (beta + 1) + (8 * beta) / (beta + 1 + sqrt (beta ^ 2 + 14 * beta + 1))) \<and>
         optimal_svht_coef quad 1 True = Some (Inr (4 / sqrt 3)) \<and>
         2.3094 < 4 / sqrt 3 \<and> 4 / sqrt 3 < (2.3095::real)"
proof -
  have r1: "0 < beta ^ 2 + 14 * beta + 1"
    using assms by (simp add: add_pos_pos)
  then have "0 < sqrt (beta ^ 2 + 14 * beta + 1)" by simp
  then have d: "0 < beta + 1 + sqrt (beta ^ 2 + 14 * beta + 1)"
    using assms by linarith
  have "0 < (8 * beta) / (beta + 1 + sqrt (beta ^ 2 + 14 * beta + 1))"
    using d assms by simp
  moreover have "0 < 2 * (beta + 1)" using assms by simp
  ultimately have r2:
    "0 < 2 * (beta + 1) + (8 * beta) / (beta + 1 + sqrt (beta ^ 2 + 14 * beta + 1))"
    by (rule add_pos_pos [rotated])
  have f: "optimal_svht_coef quad beta True =
           Some (Inr (sqrt (2 * (beta + 1) +
                            (8 * beta) / (beta + 1 + sqrt (beta ^ 2 + 14 * beta + 1)))))"
    by (simp add: optimal_svht_coef_def optimal_svht_coef_sigma_known_def Let_def)
  have p: "0 < sqrt (2 * (beta + 1) + (8 * beta) / (beta + 1 + sqrt (beta ^ 2 + 14 * beta + 1)))"
    using r2 by simp
  have one: "optimal_svht_coef quad 1 True = Some (Inr (4 / sqrt 3))"
    by (simp add: optimal_svht_coef_def known_at_one)
  have b: "2.3094 < 4 / sqrt 3 \<and> 4 / sqrt 3 < (2.3095::real)"
    using known_at_one_bounds by (simp add: known_at_one)
  from r1 d r2 f p one b show ?thesis by blast
qed

theorem sigma_known_formula_witness:
  "optimal_svht_coef (\<lambda>f a b. (b - a) / 4) (1 / 4) True =
     Some (Inr (sqrt (2 * (1 / 4 + 1) +
                      (8 * (1 / 4)) / (1 / 4 + 1 + sqrt ((1 / 4) ^ 2 + 14 * (1 / 4) + 1))))) \<and>
   0 < sqrt (2 * (1 / 4 + 1) + (8 * (1 / 4)) / (1 / 4 + 1 + sqrt ((1 / 4) ^ 2 + 14 * (1 / 4) + 1 :: real)))"
  using sigma_known_formula [of "1 / 4" "\<lambda>f a b. (b - a) / 4"] by simp

section \<open>Truncation, reconstruction and the whole of \<^verbatim>\<open>denoise_svd\<close>\<close>

text \<open>
  C2 at the series \<open>[3, 4, 0]\<close> with \<open>w = 3\<close> and the supplied rank \<open>r = 2\<close>, which lies in
  \<open>[1, w]\<close>: the Hankel matrix has one row, the decomposition has one singular value, and
  \<^verbatim>\<open>np.zeros(len(S) - r)\<close> raises.
\<close>

theorem rank_above_rows_raises:
  "denoise_svd (\<lambda>H. (U, [s], Vt)) quad [3, 4, 0] 3 (Some 2) =
     Some (Inl (ValueError ''negative dimensions are not allowed''))"
  by (simp add: denoise_svd_def hankel_embedding_def sliding_window_view_def select_rank_def
      truncate_reconstruct_def np_zeros_def)

lemma hankel_embedding_valid:
  assumes "1 \<le> w" and "w \<le> int (length x)"
  shows "hankel_embedding x w =
           Inr (map (\<lambda>i. take (nat w) (drop i x)) [0..<nat (int (length x) - w + 1)])"
  using assms by (simp add: hankel_embedding_def sliding_window_view_def Let_def)

lemma diagonal_accumulate_run:
  assumes "1 \<le> n" and "m + n = Suc N" and "shape H = (m, n)"
  shows "diagonal_accumulate N H =
      Inr (map (\<lambda>k. (\<Sum>i\<leftarrow>[0..<m]. if i \<le> k \<and> k < i + n then H ! i ! (k - i) else 0)) [0..<N],
           map (\<lambda>k. (\<Sum>i\<leftarrow>[0..<m]. if i \<le> k \<and> k < i + n then 1 else 0)) [0..<N])"
proof -
  have "diagonal_accumulate N H =
      Inr (map (\<lambda>k. replicate N 0 ! k +
                  (\<Sum>i\<leftarrow>[0..<m]. if i \<le> k \<and> k < i + n then H ! i ! (k - i) else 0)) [0..<N],
           map (\<lambda>k. replicate N 0 ! k +
                  (\<Sum>i\<leftarrow>[0..<m]. if i \<le> k \<and> k < i + n then 1 else 0)) [0..<N])"
    unfolding diagonal_accumulate_def assms(3) fst_conv snd_conv
    by (rule accumulate_rows) (use assms in simp_all)
  then show ?thesis by simp
qed

lemma count_positive:
  assumes "1 \<le> n" and "m + n = Suc N" and "k < N" and "1 \<le> m"
  shows "1 \<le> (\<Sum>i\<leftarrow>[0..<m]. if i \<le> k \<and> k < i + n then (1::real) else 0)"
proof -
  have "1 \<le> min m (Suc k) - (Suc k - n)" using assms by arith
  then show ?thesis unfolding count_rows by simp
qed

lemma sum_hits_const:
  assumes "\<And>i. i < m \<Longrightarrow> i \<le> k \<Longrightarrow> k < i + n \<Longrightarrow> f i = c"
  shows "(\<Sum>i\<leftarrow>[0..<m]. if i \<le> k \<and> k < i + n then f i else 0)
           = (c::real) * (\<Sum>i\<leftarrow>[0..<m]. if i \<le> k \<and> k < i + n then 1 else 0)"
proof -
  have "(\<Sum>i\<leftarrow>[0..<m]. if i \<le> k \<and> k < i + n then f i else 0)
           = (\<Sum>i\<leftarrow>[0..<m]. c * (if i \<le> k \<and> k < i + n then 1 else 0))"
    by (rule arg_cong [where f = sum_list], rule map_cong) (use assms in auto)
  then show ?thesis by (simp add: sum_list_const_mult)
qed

lemma diagonal_average_hankel:
  assumes "1 \<le> n" and "m + n = Suc (length x)" and "shape H = (m, n)" and "1 \<le> m"
    and entries: "\<And>i j. i < m \<Longrightarrow> j < n \<Longrightarrow> H ! i ! j = x ! (i + j)"
  shows "diagonal_average (length x) H = Inr x"
proof -
  let ?N = "length x"
  let ?c = "\<lambda>k. (\<Sum>i\<leftarrow>[0..<m]. if i \<le> k \<and> k < i + n then (1::real) else 0)"
  have tot: "(\<Sum>i\<leftarrow>[0..<m]. if i \<le> k \<and> k < i + n then H ! i ! (k - i) else 0) = x ! k * ?c k" for k
    by (rule sum_hits_const) (use entries in simp)
  have "map2 (/) (map (\<lambda>k. x ! k * ?c k) [0..<?N]) (map ?c [0..<?N]) = x"
  proof (rule nth_equalityI)
    show "length (map2 (/) (map (\<lambda>k. x ! k * ?c k) [0..<?N]) (map ?c [0..<?N])) = length x"
      by simp
  next
    fix k assume "k < length (map2 (/) (map (\<lambda>k. x ! k * ?c k) [0..<?N]) (map ?c [0..<?N]))"
    then have k: "k < ?N" by simp
    have "?c k \<noteq> 0" using count_positive [OF assms(1,2) k assms(4)] by simp
    then show "map2 (/) (map (\<lambda>k. x ! k * ?c k) [0..<?N]) (map ?c [0..<?N]) ! k = x ! k"
      using k by simp
  qed
  then show ?thesis
    unfolding diagonal_average_def diagonal_accumulate_run [OF assms(1-3)] tot by simp
qed

lemma truncate_nothing:
  assumes "r = int (length S)"
  shows "truncate_reconstruct U S Vt r =
           (case matmul U (np_diag S) of Inl e \<Rightarrow> Inl e | Inr US \<Rightarrow> matmul US Vt)"
  using assms by (simp add: truncate_reconstruct_def np_zeros_def slice_to_def)

text \<open>
  C1. Let \<open>1 \<le> w \<le> N\<close>, and let the decomposition returned for the Hankel matrix \<open>H\<close> of
  the series have \<open>min (N - w + 1, w)\<close> singular values and multiply back to \<open>H\<close>. Then
  \<^verbatim>\<open>denoise_svd\<close> with the supplied rank \<open>r = min (N - w + 1, w)\<close> returns the input
  series itself, together with that rank.
\<close>

theorem full_rank_identity:
  fixes x :: vector and w :: int
  defines "N \<equiv> int (length x)"
  assumes "1 \<le> w" and "w \<le> N"
    and "hankel_embedding x w = Inr H"
    and "svd H = (U, S, Vt)"
    and "int (length S) = min (N - w + 1) w"
    and "(case matmul U (np_diag S) of Inl e \<Rightarrow> Inl e | Inr US \<Rightarrow> matmul US Vt) = Inr H"
  shows "denoise_svd svd quad x w (Some (min (N - w + 1) w)) =
           Some (Inr (x, min (N - w + 1) w))"
proof -
  let ?m = "nat (N - w + 1)" and ?n = "nat w" and ?r = "min (N - w + 1) w"
  have H: "H = map (\<lambda>i. take ?n (drop i x)) [0..<?m]"
    using hankel_embedding_valid [of w x] assms(2-4) by (simp add: N_def)
  have sh: "shape H = (?m, ?n)"
    unfolding H using hankel_shape [of w x] assms(2,3) by (simp add: N_def)
  have entries: "H ! i ! j = x ! (i + j)" if "i < ?m" "j < ?n" for i j
  proof -
    have "i \<le> length x" using that assms(2,3) unfolding N_def by linarith
    then show ?thesis using that unfolding H by simp
  qed
  have rank: "select_rank quad H S w (Some ?r) = Some (Inr ?r)"
    using assms(2,3) by (simp add: select_rank_def)
  have rec: "truncate_reconstruct U S Vt ?r = Inr H"
    using truncate_nothing [of ?r S U Vt] assms(6,7) by simp
  have avg: "diagonal_average (length x) H = Inr x"
  proof (rule diagonal_average_hankel [OF _ _ sh _ entries])
    show "1 \<le> ?n" using assms(2) by simp
    show "?m + ?n = Suc (length x)" using assms(2,3) unfolding N_def by linarith
    show "1 \<le> ?m" using assms(3) by simp
  qed
  show ?thesis
    by (simp add: denoise_svd_def assms(4,5) rank rec avg)
qed

theorem full_rank_identity_witness:
  "denoise_svd (\<lambda>H. ([[3/5, -4/5], [4/5, 3/5]], [25, 0], [[3/5, 4/5], [-4/5, 3/5]]))
     (\<lambda>f a b. (b - a) / 4) [9, 12, 16] 2 (Some 2) = Some (Inr ([9, 12, 16], 2))"
proof -
  have emb: "hankel_embedding [9, 12, 16] 2 = Inr [[9, 12], [12, 16]]"
    by (simp add: hankel_embedding_def sliding_window_view_def upt_rec numeral_2_eq_2)
  have prod: "(case matmul [[3/5, -4/5], [4/5, 3/5]] (np_diag [25, 0]) of
                 Inl e \<Rightarrow> Inl e
               | Inr US \<Rightarrow> matmul US [[3/5, 4/5], [-4/5, 3/5]]) = Inr [[9, 12], [12, 16]]"
    by (simp add: matmul_def np_diag_def shape_def dot_def column_def upt_rec)
  show ?thesis
    using full_rank_identity [of 2 "[9, 12, 16]" "[[9, 12], [12, 16]]"
        "\<lambda>H. ([[3/5, -4/5], [4/5, 3/5]], [25, 0], [[3/5, 4/5], [-4/5, 3/5]])"
        "[[3/5, -4/5], [4/5, 3/5]]" "[25, 0]" "[[3/5, 4/5], [-4/5, 3/5]]" "\<lambda>f a b. (b - a) / 4",
        OF _ _ emb _ _ prod]
    by simp
qed

lemma shape_np_diag: "shape (np_diag v) = (length v, length v)"
proof (cases "length v")
  case 0
  then show ?thesis by (simp add: shape_def np_diag_def)
next
  case (Suc k)
  have "[0..<Suc k] = 0 # [Suc 0..<Suc k]" by (subst upt_rec) simp
  then show ?thesis unfolding np_diag_def shape_def Suc by simp
qed

lemma sum_list_all_zero: "\<forall>a\<in>set xs. a = (0::real) \<Longrightarrow> sum_list xs = 0"
  by (induction xs) auto

lemma matmul_Inr:
  assumes "snd (shape A) = fst (shape B)"
  shows "matmul A B = Inr (map (\<lambda>row. map (\<lambda>j. dot row (column B j)) [0..<snd (shape B)]) A)"
  using assms by (simp add: matmul_def)

lemma shape_matmul:
  assumes "A \<noteq> []"
  shows "shape (map (\<lambda>row. map (\<lambda>j. dot row (column B j)) [0..<snd (shape B)]) A)
           = (length A, snd (shape B))"
  using assms by (cases A) (simp_all add: shape_def)

lemma dot_zero_left: "\<forall>a\<in>set u. a = 0 \<Longrightarrow> dot u v = 0"
  unfolding dot_def by (rule sum_list_all_zero) (auto dest: set_zip_leftD)

lemma dot_zero_right: "\<forall>b\<in>set v. b = 0 \<Longrightarrow> dot u v = 0"
  unfolding dot_def by (rule sum_list_all_zero) (auto dest: set_zip_rightD)

lemma column_np_diag_zero:
  "j < k \<Longrightarrow> \<forall>b\<in>set (column (np_diag (replicate k 0)) j). b = 0"
  by (auto simp: column_def np_diag_def)

lemma reconstruct_shape:
  assumes U: "shape U = (m, k)" and Vt: "shape Vt = (k, n)" and m: "1 \<le> m"
    and S: "length S = k" and r: "0 \<le> r" "r \<le> int k"
  shows "\<exists>Hd. truncate_reconstruct U S Vt r = Inr Hd \<and> shape Hd = (m, n) \<and>
              (r = 0 \<longrightarrow> (\<forall>i<m. \<forall>j<n. Hd ! i ! j = 0))"
proof -
  let ?d = "slice_to S r @ replicate (nat (int (length S) - r)) 0"
  let ?Sr = "np_diag ?d"
  let ?US = "map (\<lambda>row. map (\<lambda>j. dot row (column ?Sr j)) [0..<snd (shape ?Sr)]) U"
  let ?Hd = "map (\<lambda>row. map (\<lambda>j. dot row (column Vt j)) [0..<snd (shape Vt)]) ?US"
  have len: "length ?d = k" using S r by (simp add: slice_to_def min_def) linarith
  have shSr: "shape ?Sr = (k, k)" using shape_np_diag [of ?d] len by simp
  have Une: "U \<noteq> []" using U m by (auto simp: shape_def)
  have m1: "matmul U ?Sr = Inr ?US"
    by (rule matmul_Inr) (simp add: U shSr)
  have shUS: "shape ?US = (m, k)"
    using shape_matmul [OF Une, of ?Sr] U shSr by (simp add: shape_def)
  have m2: "matmul ?US Vt = Inr ?Hd"
    by (rule matmul_Inr) (simp add: shUS Vt)
  have USne: "?US \<noteq> []" using Une by simp
  have shHd: "shape ?Hd = (m, n)"
    using shape_matmul [OF USne, of Vt] shUS Vt by (simp add: shape_def)
  have run: "truncate_reconstruct U S Vt r = Inr ?Hd"
  proof -
    have z: "np_zeros (int (length S) - r) = Inr (replicate (nat (int (length S) - r)) 0)"
      using r S by (simp add: np_zeros_def)
    show ?thesis unfolding truncate_reconstruct_def z Let_def
      by (simp only: sum.case m1 m2)
  qed
  have zero: "?Hd ! i ! j = 0" if "r = 0" "i < m" "j < n" for i j
  proof -
    have d0: "?d = replicate k 0" using that(1) S by (simp add: slice_to_def)
    have lenU: "length U = m" using U by (simp add: shape_def)
    have "\<forall>a\<in>set (?US ! i). a = 0"
      using that(2) lenU
      by (auto simp: d0 shape_np_diag intro!: dot_zero_right column_np_diag_zero)
    then have "dot (?US ! i) (column Vt j) = 0" by (rule dot_zero_left)
    then show ?thesis using that(2,3) lenU Vt by (simp add: shape_def)
  qed
  from run shHd zero show ?thesis by blast
qed

lemma diagonal_average_length:
  assumes "1 \<le> n" and "m + n = Suc N" and "shape H = (m, n)" and "1 \<le> m"
  shows "\<exists>xd. diagonal_average N H = Inr xd \<and> length xd = N \<and>
           ((\<forall>i<m. \<forall>j<n. H ! i ! j = 0) \<longrightarrow> xd = replicate N 0)"
proof -
  let ?s = "\<lambda>k. (\<Sum>i\<leftarrow>[0..<m]. if i \<le> k \<and> k < i + n then H ! i ! (k - i) else 0)"
  let ?c = "\<lambda>k. (\<Sum>i\<leftarrow>[0..<m]. if i \<le> k \<and> k < i + n then (1::real) else 0)"
  let ?xd = "map2 (/) (map ?s [0..<N]) (map ?c [0..<N])"
  have run: "diagonal_average N H = Inr ?xd"
    unfolding diagonal_average_def diagonal_accumulate_run [OF assms(1-3)] by simp
  have len: "length ?xd = N" by simp
  have zero: "?xd = replicate N 0" if z: "\<forall>i<m. \<forall>j<n. H ! i ! j = 0"
  proof -
    have "?s k = 0 * ?c k" for k
      by (rule sum_hits_const) (use z in simp)
    then have "?s = (\<lambda>k. 0)" by auto
    then show ?thesis by (auto intro!: nth_equalityI)
  qed
  from run len zero show ?thesis by blast
qed

lemma linspace5: "np_linspace a b 5 = [a, a + (b - a) / 4, a + 2 * ((b - a) / 4), a + 3 * ((b - a) / 4), b]"
  by (simp add: np_linspace_def upt_rec numeral_eq_Suc)

lemma loop_linear:
  "median_loop (\<lambda>x. Inr (x / 4)) True 0 4 = Some (Inr (2 - 1 / 2048, 2 + 1 / 2048))"
  by (simp add: median_loop.simps linspace5 mask_select_def np_max_def np_min_def)

lemma marpas_linear: "marpas (\<lambda>f a b. (b - a) / 4) 1 = (\<lambda>x. Inr (x / 4))"
  by (rule ext) (simp add: marpas_def inc_mar_pas_def Let_def field_simps)

section \<open>The median solver\<close>

lemma mask_select_filter: "mask_select xs (map P (map F xs)) = filter (\<lambda>x. P (F x)) xs"
  unfolding mask_select_def by (induction xs) auto

lemma list_ex_filter: "list_ex P (map F xs) \<longleftrightarrow> filter (\<lambda>x. P (F x)) xs \<noteq> []"
  by (induction xs) auto

lemma np_max_Max: "l \<noteq> [] \<Longrightarrow> np_max l = Max (set l)"
proof (cases l)
  case (Cons a rest)
  then show ?thesis unfolding np_max_def by (simp only: list.sel Max.set_eq_fold)
qed simp

lemma np_min_Min: "l \<noteq> [] \<Longrightarrow> np_min l = Min (set l)"
proof (cases l)
  case (Cons a rest)
  then show ?thesis unfolding np_min_def by (simp only: list.sel Min.set_eq_fold)
qed simp

lemma map_raise_Inr: "map_raise (\<lambda>x. Inr (F x)) xs = Inr (map F xs)"
  by (induction xs) auto

lemma spec_samples_list:
  "spec_samples lo hi =
     [lo, lo + (hi - lo) / 4, lo + 2 * ((hi - lo) / 4), lo + 3 * ((hi - lo) / 4), hi]"
proof -
  have "[0..<5] = [0, 1, 2, 3, 4::nat]" by (simp add: upt_rec numeral_eq_Suc)
  moreover have "lo + real 4 * (hi - lo) / 4 = hi" by (simp add: field_simps)
  ultimately show ?thesis unfolding spec_samples_def by simp
qed

lemma linspace_samples: "np_linspace lo hi 5 = spec_samples lo hi"
proof -
  have "[0..<5 - 1] = [0, 1, 2, 3::nat]" by (simp add: upt_rec numeral_eq_Suc)
  then show ?thesis unfolding np_linspace_def spec_samples_list by simp
qed

lemma sample_bounds:
  assumes "lo < hi" and "x \<in> set (spec_samples lo hi)"
  shows "lo \<le> x" and "x \<le> hi" and "x = lo \<or> lo + (hi - lo) / 4 \<le> x"
    and "x = hi \<or> x \<le> hi - (hi - lo) / 4"
proof -
  define d where "d = (hi - lo) / 4"
  have d: "0 < d" and hi: "hi = lo + 4 * d" using assms(1) by (simp_all add: d_def field_simps)
  have "x = lo \<or> x = lo + d \<or> x = lo + 2 * d \<or> x = lo + 3 * d \<or> x = lo + 4 * d"
    using assms(2) unfolding spec_samples_list d_def [symmetric] hi [symmetric] by auto
  then show "lo \<le> x" and "x \<le> hi" and "x = lo \<or> lo + (hi - lo) / 4 \<le> x"
    and "x = hi \<or> x \<le> hi - (hi - lo) / 4"
    unfolding d_def [symmetric] using d unfolding hi by auto
qed

lemma step_facts:
  fixes F :: "real \<Rightarrow> real"
  assumes "lo < hi"
    and inj: "\<And>x y. lo \<le> x \<Longrightarrow> x \<le> hi \<Longrightarrow> lo \<le> y \<Longrightarrow> y \<le> hi \<Longrightarrow>
                 F x = 0.5 \<Longrightarrow> F y = 0.5 \<Longrightarrow> x = y"
  defines "B \<equiv> filter (\<lambda>x. F x < 0.5) (spec_samples lo hi)"
    and "A \<equiv> filter (\<lambda>x. F x > 0.5) (spec_samples lo hi)"
  defines "lo' \<equiv> (if B = [] then lo else Max (set B))"
    and "hi' \<equiv> (if A = [] then hi else Min (set A))"
  shows "lo \<le> lo'" and "hi' \<le> hi" and "hi' - lo' \<le> 3 / 4 * (hi - lo)"
    and "lo' \<noteq> lo \<or> hi' \<noteq> hi" and "B \<noteq> [] \<or> A \<noteq> []"
proof -
  let ?d = "(hi - lo) / 4"
  have d: "0 < ?d" using assms(1) by simp
  have lo_in: "lo' = lo \<or> lo' \<in> set (spec_samples lo hi)"
  proof (cases "B = []")
    case True then show ?thesis by (simp add: lo'_def)
  next
    case False
    then have "Max (set B) \<in> set B" by (intro Max_in) simp_all
    then show ?thesis using False by (auto simp: lo'_def B_def)
  qed
  have hi_in: "hi' = hi \<or> hi' \<in> set (spec_samples lo hi)"
  proof (cases "A = []")
    case True then show ?thesis by (simp add: hi'_def)
  next
    case False
    then have "Min (set A) \<in> set A" by (intro Min_in) simp_all
    then show ?thesis using False by (auto simp: hi'_def A_def)
  qed
  show lo_le: "lo \<le> lo'" using lo_in sample_bounds(1) [OF assms(1)] by auto
  show hi_le: "hi' \<le> hi" using hi_in sample_bounds(2) [OF assms(1)] by auto
  have lo_step: "lo' = lo \<or> lo + ?d \<le> lo'"
    using lo_in sample_bounds(3) [OF assms(1)] by auto
  have hi_step: "hi' = hi \<or> hi' \<le> hi - ?d"
    using hi_in sample_bounds(4) [OF assms(1)] by auto
  have half: "F x = 0.5" if same: "lo' = lo" "hi' = hi"
    and x: "x \<in> set (spec_samples lo hi)" "lo < x" "x < hi" for x
  proof (rule ccontr)
    assume "F x \<noteq> 0.5"
    then consider "F x < 0.5" | "F x > 0.5" by linarith
    then show False
    proof cases
      case 1
      then have xB: "x \<in> set B" using x(1) by (simp add: B_def)
      then have "B \<noteq> []" by auto
      moreover have "x \<le> Max (set B)" using xB by (intro Max_ge) simp_all
      ultimately show False using same(1) x(2) by (simp add: lo'_def)
    next
      case 2
      then have xA: "x \<in> set A" using x(1) by (simp add: A_def)
      then have "A \<noteq> []" by auto
      moreover have "Min (set A) \<le> x" using xA by (intro Min_le) simp_all
      ultimately show False using same(2) x(3) by (simp add: hi'_def)
    qed
  qed
  show moved: "lo' \<noteq> lo \<or> hi' \<noteq> hi"
  proof (rule ccontr)
    assume "\<not> (lo' \<noteq> lo \<or> hi' \<noteq> hi)"
    then have same: "lo' = lo" "hi' = hi" by simp_all
    let ?x1 = "lo + ?d" and ?x2 = "lo + 2 * ?d"
    have in1: "?x1 \<in> set (spec_samples lo hi)" and in2: "?x2 \<in> set (spec_samples lo hi)"
      unfolding spec_samples_list by simp_all
    have b1: "lo < ?x1" "?x1 < hi" and b2: "lo < ?x2" "?x2 < hi"
      using assms(1) by (simp_all add: field_simps)
    have h1: "F ?x1 = 0.5" by (rule half [OF same in1 b1])
    have h2: "F ?x2 = 0.5" by (rule half [OF same in2 b2])
    have "?x1 = ?x2"
      using b1 b2 by (intro inj [OF _ _ _ _ h1 h2] less_imp_le)
    then show False using d by linarith
  qed
  show "B \<noteq> [] \<or> A \<noteq> []"
    using moved by (auto simp: lo'_def hi'_def)
  show "hi' - lo' \<le> 3 / 4 * (hi - lo)"
    using moved lo_step hi_step lo_le hi_le by argo
qed

lemma median_loop_stop:
  assumes "\<not> (change \<and> hi - lo > 0.001)"
  shows "median_loop G change lo hi = Some (Inr (lo, hi))"
  by (subst median_loop.simps) (rule if_not_P [OF assms])

lemma bounds_as_spec:
  "(if B \<noteq> [] then np_max B else lo) = (if B = [] then lo else Max (set B))"
  "(if A \<noteq> [] then np_min A else hi) = (if A = [] then hi else Min (set A))"
  by (simp_all add: np_max_Max np_min_Min)

lemma median_loop_step:
  assumes "hi - lo > 0.001"
  shows "median_loop (\<lambda>x. Inr (F x)) True lo hi =
           median_loop (\<lambda>x. Inr (F x))
             (filter (\<lambda>x. F x < 0.5) (spec_samples lo hi) \<noteq> [] \<or>
              filter (\<lambda>x. F x > 0.5) (spec_samples lo hi) \<noteq> [])
             (if filter (\<lambda>x. F x < 0.5) (spec_samples lo hi) = [] then lo
              else Max (set (filter (\<lambda>x. F x < 0.5) (spec_samples lo hi))))
             (if filter (\<lambda>x. F x > 0.5) (spec_samples lo hi) = [] then hi
              else Min (set (filter (\<lambda>x. F x > 0.5) (spec_samples lo hi))))"
  by (subst median_loop.simps)
     (simp only: assms simp_thms if_True linspace_samples map_raise_Inr sum.case Let_def
        list_ex_filter mask_select_filter bounds_as_spec)

lemma spec_bisection_stop:
  assumes "hi - lo \<le> 0.001"
  shows "spec_bisection F lo hi = Some ((lo + hi) / 2)"
  by (subst spec_bisection.simps) (rule if_P [OF assms])

lemma spec_bisection_step:
  assumes "\<not> hi - lo \<le> 0.001"
    and "(if filter (\<lambda>x. F x < 0.5) (spec_samples lo hi) = [] then lo
          else Max (set (filter (\<lambda>x. F x < 0.5) (spec_samples lo hi)))) \<noteq> lo \<or>
         (if filter (\<lambda>x. F x > 0.5) (spec_samples lo hi) = [] then hi
          else Min (set (filter (\<lambda>x. F x > 0.5) (spec_samples lo hi)))) \<noteq> hi"
  shows "spec_bisection F lo hi =
           spec_bisection F
             (if filter (\<lambda>x. F x < 0.5) (spec_samples lo hi) = [] then lo
              else Max (set (filter (\<lambda>x. F x < 0.5) (spec_samples lo hi))))
             (if filter (\<lambda>x. F x > 0.5) (spec_samples lo hi) = [] then hi
              else Min (set (filter (\<lambda>x. F x > 0.5) (spec_samples lo hi))))"
proof -
  have moved: "\<not> ((if filter (\<lambda>x. F x < 0.5) (spec_samples lo hi) = [] then lo
          else Max (set (filter (\<lambda>x. F x < 0.5) (spec_samples lo hi)))) = lo \<and>
         (if filter (\<lambda>x. F x > 0.5) (spec_samples lo hi) = [] then hi
          else Min (set (filter (\<lambda>x. F x > 0.5) (spec_samples lo hi)))) = hi)"
    using assms(2) by blast
  show ?thesis
    by (subst spec_bisection.simps) (simp only: assms(1) if_False Let_def moved)
qed

lemma iterations_agree:
  fixes F :: "real \<Rightarrow> real"
  assumes inj: "\<And>x y. a \<le> x \<Longrightarrow> x \<le> b \<Longrightarrow> a \<le> y \<Longrightarrow> y \<le> b \<Longrightarrow>
                 F x = 0.5 \<Longrightarrow> F y = 0.5 \<Longrightarrow> x = y"
  shows "hi - lo \<le> 0.001 * (4 / 3) ^ n \<Longrightarrow> a \<le> lo \<Longrightarrow> hi \<le> b \<Longrightarrow>
         \<exists>l h. median_loop (\<lambda>x. Inr (F x)) True lo hi = Some (Inr (l, h)) \<and> h - l \<le> 0.001 \<and>
               spec_bisection F lo hi = Some ((l + h) / 2)"
proof (induction n arbitrary: lo hi)
  case 0
  then have "hi - lo \<le> 0.001" by simp
  then show ?case
    using median_loop_stop [of True hi lo] spec_bisection_stop [of hi lo F] by auto
next
  case (Suc n)
  show ?case
  proof (cases "hi - lo \<le> 0.001")
    case True
    then show ?thesis
      using median_loop_stop [of True hi lo "\<lambda>x. Inr (F x)"] spec_bisection_stop [of hi lo F]
      by auto
  next
    case False
    then have lt: "lo < hi" and wide: "hi - lo > 0.001" by simp_all
    let ?B = "filter (\<lambda>x. F x < 0.5) (spec_samples lo hi)"
    let ?A = "filter (\<lambda>x. F x > 0.5) (spec_samples lo hi)"
    let ?lo = "if ?B = [] then lo else Max (set ?B)"
    let ?hi = "if ?A = [] then hi else Min (set ?A)"
    have inj': "x = y" if "lo \<le> x" "x \<le> hi" "lo \<le> y" "y \<le> hi" "F x = 0.5" "F y = 0.5" for x y
    proof (rule inj)
      show "a \<le> x" "x \<le> b" "a \<le> y" "y \<le> b" using that(1-4) Suc.prems(2,3) by linarith+
      show "F x = 0.5" "F y = 0.5" by (fact that(5), fact that(6))
    qed
    note facts = step_facts [of lo hi F, OF lt inj']
    have width: "?hi - ?lo \<le> 0.001 * (4 / 3) ^ n"
    proof -
      have "?hi - ?lo \<le> 3 / 4 * (hi - lo)" by (rule facts(3))
      also have "\<dots> \<le> 3 / 4 * (0.001 * (4 / 3) ^ Suc n)"
        using Suc.prems(1) by simp
      also have "\<dots> = 0.001 * (4 / 3) ^ n" by simp
      finally show ?thesis .
    qed
    have "a \<le> ?lo" using facts(1) Suc.prems(2) by linarith
    moreover have "?hi \<le> b" using facts(2) Suc.prems(3) by linarith
    ultimately obtain l h where
      run: "median_loop (\<lambda>x. Inr (F x)) True ?lo ?hi = Some (Inr (l, h))"
      and small: "h - l \<le> 0.001"
      and spec: "spec_bisection F ?lo ?hi = Some ((l + h) / 2)"
      using Suc.IH [OF width] by blast
    have "median_loop (\<lambda>x. Inr (F x)) True lo hi = Some (Inr (l, h))"
      unfolding median_loop_step [OF wide] using facts(5) run by simp
    moreover have "spec_bisection F lo hi = Some ((l + h) / 2)"
      using spec_bisection_step [OF False facts(4)] spec by simp
    ultimately show ?thesis using small by blast
  qed
qed

lemma width_reached: "\<exists>n. (w::real) \<le> 0.001 * (4 / 3) ^ n"
proof -
  obtain n where "w * 1000 < (4 / 3) ^ n"
    using real_arch_pow [of "4 / 3" "w * 1000"] by auto
  then have "w \<le> 0.001 * (4 / 3) ^ n" by simp
  then show ?thesis ..
qed

lemma marpas_valid:
  "beta \<le> 1 \<Longrightarrow>
   marpas quad beta = (\<lambda>x. Inr (1 - quad (inc_mar_pas_f beta 0) x ((1 + sqrt beta) ^ 2)))"
  by (rule ext) (simp add: marpas_def inc_mar_pas_def Let_def)

lemma density_is_spec_g:
  assumes "0 \<le> beta"
  shows "inc_mar_pas_f beta 0 = spec_g beta"
proof (rule ext)
  fix x
  let ?top = "(1 + sqrt beta) ^ 2" and ?bot = "(1 - sqrt beta) ^ 2"
  have "?top - ?bot = 4 * sqrt beta" by (simp add: power2_eq_square algebra_simps)
  moreover have "0 \<le> sqrt beta" using assms by simp
  ultimately have le: "?bot \<le> ?top" by linarith
  show "inc_mar_pas_f beta 0 x = spec_g beta x"
  proof (cases "(?top - x) * (x - ?bot) > 0")
    case True
    then have "?bot < x \<and> x < ?top"
      using le by (auto simp: zero_less_mult_iff)
    then show ?thesis using True by (simp add: inc_mar_pas_f_def spec_g_def Let_def)
  next
    case False
    show ?thesis
    proof (cases "?bot \<le> x \<and> x \<le> ?top")
      case True
      then have "0 \<le> (?top - x) * (x - ?bot)" by simp
      with False have "(?top - x) * (x - ?bot) = 0" by linarith
      then show ?thesis using True by (simp add: inc_mar_pas_f_def spec_g_def Let_def)
    next
      case outside: False
      then have "spec_g beta x = 0" unfolding spec_g_def by (simp only: if_False)
      moreover have "inc_mar_pas_f beta 0 x = 0"
        using False by (simp add: inc_mar_pas_f_def Let_def)
      ultimately show ?thesis by simp
    qed
  qed
qed

text \<open>
  C6. Let \<open>\<beta>\<close> be in \<open>(0, 1]\<close> and let the function \<^verbatim>\<open>marpas\<close> that the quadrature gives
  take the value 0.5 at no more than one point of the support, as the exact integral does
  (it is strictly increasing there). Then the \<^verbatim>\<open>while\<close> loop returns: it ends with bounds
  at most 0.001 apart, and \<^verbatim>\<open>median_marcenko_pastur\<close> returns their midpoint.
\<close>

theorem bisection_terminates:
  assumes "0 < beta" and "beta \<le> 1"
    and "\<forall>x y. (1 - sqrt beta) ^ 2 \<le> x \<and> x \<le> (1 + sqrt beta) ^ 2 \<and>
               (1 - sqrt beta) ^ 2 \<le> y \<and> y \<le> (1 + sqrt beta) ^ 2 \<and>
               marpas quad beta x = Inr 0.5 \<and> marpas quad beta y = Inr 0.5 \<longrightarrow> x = y"
  shows "\<exists>lobnd hibnd.
           median_loop (marpas quad beta) True ((1 - sqrt beta) ^ 2) ((1 + sqrt beta) ^ 2)
             = Some (Inr (lobnd, hibnd)) \<and>
           hibnd - lobnd \<le> 0.001 \<and>
           median_marcenko_pastur quad beta = Some (Inr ((hibnd + lobnd) / 2))"
proof -
  let ?bot = "(1 - sqrt beta) ^ 2" and ?top = "(1 + sqrt beta) ^ 2"
  let ?F = "\<lambda>x. 1 - quad (inc_mar_pas_f beta 0) x ?top"
  have m: "marpas quad beta = (\<lambda>x. Inr (?F x))" by (rule marpas_valid [OF assms(2)])
  have inj: "x = y" if "?bot \<le> x" "x \<le> ?top" "?bot \<le> y" "y \<le> ?top" "?F x = 0.5" "?F y = 0.5"
    for x y
  proof -
    have "marpas quad beta x = Inr 0.5" "marpas quad beta y = Inr 0.5"
      unfolding m using that(5,6) by simp_all
    with that(1-4) assms(3) show ?thesis by blast
  qed
  obtain n where n: "?top - ?bot \<le> 0.001 * (4 / 3) ^ n"
    using width_reached [of "?top - ?bot"] by blast
  from iterations_agree [of ?bot ?top ?F ?top ?bot n, OF inj n]
  obtain l h where run: "median_loop (\<lambda>x. Inr (?F x)) True ?bot ?top = Some (Inr (l, h))"
    and small: "h - l \<le> 0.001"
    by auto
  have "median_marcenko_pastur quad beta = Some (Inr ((h + l) / 2))"
    unfolding median_marcenko_pastur_def Let_def m run by simp
  with run small show ?thesis unfolding m by blast
qed

theorem bisection_terminates_witness:
  "median_loop (marpas (\<lambda>f a b. (b - a) / 4) 1) True ((1 - sqrt 1) ^ 2) ((1 + sqrt 1) ^ 2)
       = Some (Inr (2 - 1 / 2048, 2 + 1 / 2048)) \<and>
   (2 + 1 / 2048) - (2 - 1 / 2048) \<le> (0.001 :: real) \<and>
   median_marcenko_pastur (\<lambda>f a b. (b - a) / 4) 1 = Some (Inr 2)"
proof -
  have "\<exists>lobnd hibnd.
     median_loop (marpas (\<lambda>f a b. (b - a) / 4) 1) True ((1 - sqrt 1) ^ 2) ((1 + sqrt 1) ^ 2)
       = Some (Inr (lobnd, hibnd)) \<and>
     hibnd - lobnd \<le> 0.001 \<and>
     median_marcenko_pastur (\<lambda>f a b. (b - a) / 4) 1 = Some (Inr ((hibnd + lobnd) / 2))"
    by (rule bisection_terminates) (simp_all add: marpas_linear)
  then show ?thesis by (auto simp: marpas_linear loop_linear)
qed

text \<open>
  C5. Let \<open>\<beta>\<close> be in \<open>(0, 1]\<close> and let \<open>F\<close> take the value 0.5 at no more than one
  point of the support. Then the solver as the specification words it (bounds initialised to
  the support endpoints, five evenly spaced samples per iteration, \<open>lo\<close> moved to the largest
  sample with \<open>F < 0.5\<close> and \<open>hi\<close> to the smallest sample with \<open>F > 0.5\<close>, stop at
  \<open>hi - lo \<le> 0.001\<close> or when no bound moved, midpoint returned) returns a value, and
  \<^verbatim>\<open>median_marcenko_pastur\<close> returns the same value.
\<close>

theorem solver_follows_description:
  assumes "0 < beta" and "beta \<le> 1"
    and "\<forall>x y. (1 - sqrt beta) ^ 2 \<le> x \<and> x \<le> (1 + sqrt beta) ^ 2 \<and>
               (1 - sqrt beta) ^ 2 \<le> y \<and> y \<le> (1 + sqrt beta) ^ 2 \<and>
               spec_F quad beta x = 0.5 \<and> spec_F quad beta y = 0.5 \<longrightarrow> x = y"
  shows "\<exists>med. spec_median quad beta = Some med \<and>
               median_marcenko_pastur quad beta = Some (Inr med)"
proof -
  let ?bot = "(1 - sqrt beta) ^ 2" and ?top = "(1 + sqrt beta) ^ 2"
  have g: "inc_mar_pas_f beta 0 = spec_g beta"
    by (rule density_is_spec_g) (use assms(1) in simp)
  have m: "marpas quad beta = (\<lambda>x. Inr (spec_F quad beta x))"
    unfolding marpas_valid [OF assms(2)] g spec_F_def ..
  have inj: "x = y" if "?bot \<le> x" "x \<le> ?top" "?bot \<le> y" "y \<le> ?top"
    "spec_F quad beta x = 0.5" "spec_F quad beta y = 0.5" for x y
    using that assms(3) by blast
  obtain n where n: "?top - ?bot \<le> 0.001 * (4 / 3) ^ n"
    using width_reached [of "?top - ?bot"] by blast
  from iterations_agree [of ?bot ?top "spec_F quad beta" ?top ?bot n, OF inj n]
  obtain l h where
    run: "median_loop (\<lambda>x. Inr (spec_F quad beta x)) True ?bot ?top = Some (Inr (l, h))"
    and spec: "spec_bisection (spec_F quad beta) ?bot ?top = Some ((l + h) / 2)"
    by auto
  have "median_marcenko_pastur quad beta = Some (Inr ((l + h) / 2))"
    unfolding median_marcenko_pastur_def Let_def m run by (simp add: add.commute)
  moreover have "spec_median quad beta = Some ((l + h) / 2)"
    unfolding spec_median_def by (rule spec)
  ultimately show ?thesis by blast
qed

lemma spec_F_linear: "spec_F (\<lambda>f a b. (b - a) / 4) 1 = (\<lambda>x. x / 4)"
  by (rule ext) (simp add: spec_F_def field_simps)

lemma median_linear: "median_marcenko_pastur (\<lambda>f a b. (b - a) / 4) 1 = Some (Inr 2)"
  by (simp add: median_marcenko_pastur_def marpas_linear loop_linear)

theorem solver_follows_description_witness:
  "spec_median (\<lambda>f a b. (b - a) / 4) 1 = Some 2 \<and>
   median_marcenko_pastur (\<lambda>f a b. (b - a) / 4) 1 = Some (Inr 2)"
proof -
  have "\<exists>med. spec_median (\<lambda>f a b. (b - a) / 4) 1 = Some med \<and>
         median_marcenko_pastur (\<lambda>f a b. (b - a) / 4) 1 = Some (Inr med)"
    by (rule solver_follows_description) (simp_all add: spec_F_linear)
  then show ?thesis unfolding median_linear by simp
qed

section \<open>Automatic rank selection\<close>

lemma median_loop_positive:
  fixes F :: "real \<Rightarrow> real"
  assumes inj: "\<And>x y. a \<le> x \<Longrightarrow> x \<le> b \<Longrightarrow> a \<le> y \<Longrightarrow> y \<le> b \<Longrightarrow>
                 F x = 0.5 \<Longrightarrow> F y = 0.5 \<Longrightarrow> x = y"
    and low: "F a < 0.5"
  shows "hi - lo \<le> 0.001 * (4 / 3) ^ n \<Longrightarrow> a \<le> lo \<Longrightarrow> a < hi \<Longrightarrow> hi \<le> b \<Longrightarrow>
         \<exists>l h. median_loop (\<lambda>x. Inr (F x)) True lo hi = Some (Inr (l, h)) \<and> a \<le> l \<and> a < h"
proof (induction n arbitrary: lo hi)
  case 0
  then have "\<not> (True \<and> hi - lo > 0.001)" by simp
  from median_loop_stop [OF this, of "\<lambda>x. Inr (F x)"] 0 show ?case by blast
next
  case (Suc n)
  show ?case
  proof (cases "hi - lo \<le> 0.001")
    case True
    then have "\<not> (True \<and> hi - lo > 0.001)" by simp
    from median_loop_stop [OF this, of "\<lambda>x. Inr (F x)"] Suc.prems show ?thesis by blast
  next
    case False
    then have lt: "lo < hi" and wide: "hi - lo > 0.001" by simp_all
    let ?B = "filter (\<lambda>x. F x < 0.5) (spec_samples lo hi)"
    let ?A = "filter (\<lambda>x. F x > 0.5) (spec_samples lo hi)"
    let ?lo = "if ?B = [] then lo else Max (set ?B)"
    let ?hi = "if ?A = [] then hi else Min (set ?A)"
    have inj': "x = y" if "lo \<le> x" "x \<le> hi" "lo \<le> y" "y \<le> hi" "F x = 0.5" "F y = 0.5" for x y
    proof (rule inj)
      show "a \<le> x" "x \<le> b" "a \<le> y" "y \<le> b" using that(1-4) Suc.prems(2,4) by linarith+
      show "F x = 0.5" "F y = 0.5" by (fact that(5), fact that(6))
    qed
    note facts = step_facts [of lo hi F, OF lt inj']
    have width: "?hi - ?lo \<le> 0.001 * (4 / 3) ^ n"
    proof -
      have "?hi - ?lo \<le> 3 / 4 * (hi - lo)" by (rule facts(3))
      also have "\<dots> \<le> 3 / 4 * (0.001 * (4 / 3) ^ Suc n)"
        using Suc.prems(1) by simp
      also have "\<dots> = 0.001 * (4 / 3) ^ n" by simp
      finally show ?thesis .
    qed
    have lo_ok: "a \<le> ?lo" using facts(1) Suc.prems(2) by linarith
    have hi_ok: "?hi \<le> b" using facts(2) Suc.prems(4) by linarith
    have above: "a < ?hi"
    proof (cases "?A = []")
      case True
      then show ?thesis using Suc.prems(3) by simp
    next
      case nonempty: False
      then have "Min (set ?A) \<in> set ?A" by (metis Min_in List.finite_set set_empty)
      then have in_s: "Min (set ?A) \<in> set (spec_samples lo hi)" and gt: "F (Min (set ?A)) > 0.5"
        by simp_all
      have "lo \<le> Min (set ?A)" by (rule sample_bounds(1) [OF lt in_s])
      then have "a \<le> Min (set ?A)" using Suc.prems(2) by linarith
      moreover have "Min (set ?A) \<noteq> a" using gt low by auto
      ultimately show ?thesis using nonempty by simp
    qed
    from Suc.IH [OF width lo_ok above hi_ok]
    obtain l h where run: "median_loop (\<lambda>x. Inr (F x)) True ?lo ?hi = Some (Inr (l, h))"
      and pos: "a \<le> l" "a < h"
      by blast
    have "median_loop (\<lambda>x. Inr (F x)) True lo hi = Some (Inr (l, h))"
      unfolding median_loop_step [OF wide] using facts(5) run by simp
    with pos show ?thesis by blast
  qed
qed

lemma midpoint_positive:
  fixes a l h :: real
  shows "0 \<le> a \<Longrightarrow> a \<le> l \<Longrightarrow> a < h \<Longrightarrow> 0 < (h + l) / 2"
  by simp

lemma support_width:
  assumes "0 < beta"
  shows "0 \<le> (1 - sqrt beta) ^ 2" and "(1 - sqrt beta) ^ 2 < (1 + sqrt beta) ^ 2"
proof -
  show "0 \<le> (1 - sqrt beta) ^ 2" by simp
  have "(1 + sqrt beta) ^ 2 - (1 - sqrt beta) ^ 2 = 4 * sqrt beta"
    by (simp add: power2_eq_square algebra_simps)
  moreover have "0 < sqrt beta" using assms by simp
  ultimately show "(1 - sqrt beta) ^ 2 < (1 + sqrt beta) ^ 2" by linarith
qed

lemma median_positive:
  assumes "0 < beta" and "beta \<le> 1"
    and inj: "\<forall>x y. (1 - sqrt beta) ^ 2 \<le> x \<and> x \<le> (1 + sqrt beta) ^ 2 \<and>
               (1 - sqrt beta) ^ 2 \<le> y \<and> y \<le> (1 + sqrt beta) ^ 2 \<and>
               marpas quad beta x = Inr 0.5 \<and> marpas quad beta y = Inr 0.5 \<longrightarrow> x = y"
    and low: "marpas quad beta ((1 - sqrt beta) ^ 2) = Inr y0" "y0 < 0.5"
  shows "\<exists>med. median_marcenko_pastur quad beta = Some (Inr med) \<and> 0 < med"
proof -
  let ?bot = "(1 - sqrt beta) ^ 2" and ?top = "(1 + sqrt beta) ^ 2"
  let ?F = "\<lambda>x. 1 - quad (inc_mar_pas_f beta 0) x ?top"
  have m: "marpas quad beta = (\<lambda>x. Inr (?F x))" by (rule marpas_valid [OF assms(2)])
  have inj': "x = y" if "?bot \<le> x" "x \<le> ?top" "?bot \<le> y" "y \<le> ?top" "?F x = 0.5" "?F y = 0.5"
    for x y
  proof -
    have "marpas quad beta x = Inr 0.5" "marpas quad beta y = Inr 0.5"
      unfolding m using that(5,6) by simp_all
    with that(1-4) inj show ?thesis by blast
  qed
  have low': "?F ?bot < 0.5" using low unfolding m by simp
  obtain n where n: "?top - ?bot \<le> 0.001 * (4 / 3) ^ n"
    using width_reached [of "?top - ?bot"] by blast
  from median_loop_positive [of ?bot ?top ?F ?top ?bot n, OF inj' low' n order_refl
      support_width(2) [OF assms(1)] order_refl]
  obtain l h where run: "median_loop (\<lambda>x. Inr (?F x)) True ?bot ?top = Some (Inr (l, h))"
    and pos: "?bot \<le> l" "?bot < h"
    by blast
  have "median_marcenko_pastur quad beta = Some (Inr ((h + l) / 2))"
    unfolding median_marcenko_pastur_def Let_def m run by simp
  moreover have "0 < (h + l) / 2"
    by (rule midpoint_positive [OF support_width(1) [OF assms(1)] pos])
  ultimately show ?thesis by blast
qed

lemma aspect_ratio:
  assumes "1 \<le> m" and "1 \<le> (n::nat)"
  shows "0 < real (min m n) / real (max m n)" and "real (min m n) / real (max m n) \<le> 1"
  using assms by (simp_all add: min_def max_def)

text \<open>
  C3. Let \<open>1 \<le> w \<le> N\<close>, let no rank be supplied, and let the decomposition have the
  shapes numpy gives it. Let the function \<^verbatim>\<open>marpas\<close> that the quadrature gives at the
  aspect ratio \<open>\<beta>\<close> of the Hankel matrix take the value 0.5 at no more than one point of
  the support and lie below 0.5 at its lower end (the exact integral is 0 there and strictly
  increasing). Then the median solver returns a positive median, the coefficient for the
  unknown noise level is the closed form divided by the square root of that median, and
  \<^verbatim>\<open>denoise_svd\<close> returns without an exception: the rank it returns is the number of
  singular values strictly greater than that coefficient times their median, the series it
  returns is the diagonal average of the product truncated at that rank and has the length
  of the input, and when that rank is 0 the series returned is all zeros (the rank is
  returned as 0).
\<close>

theorem automatic_rank_selection:
  fixes x :: vector and w :: int
  defines "N \<equiv> int (length x)"
  defines "m \<equiv> nat (N - w + 1)" and "n \<equiv> nat w"
  defines "beta \<equiv> real (min m n) / real (max m n)"
  assumes "1 \<le> w" and "w \<le> N"
    and "hankel_embedding x w = Inr H"
    and "svd H = (U, S, Vt)"
    and "shape U = (m, min m n)" and "length S = min m n" and "shape Vt = (min m n, n)"
    and "\<forall>a b. (1 - sqrt beta) ^ 2 \<le> a \<and> a \<le> (1 + sqrt beta) ^ 2 \<and>
               (1 - sqrt beta) ^ 2 \<le> b \<and> b \<le> (1 + sqrt beta) ^ 2 \<and>
               marpas quad beta a = Inr 0.5 \<and> marpas quad beta b = Inr 0.5 \<longrightarrow> a = b"
    and "marpas quad beta ((1 - sqrt beta) ^ 2) = Inr y0" and "y0 < 0.5"
  shows "\<exists>med. median_marcenko_pastur quad beta = Some (Inr med) \<and> 0 < med \<and>
           optimal_svht_coef_sigma_unknown quad beta =
             Some (Inr (optimal_svht_coef_sigma_known beta / sqrt med)) \<and>
           (\<exists>H_denoised x_denoised.
              truncate_reconstruct U S Vt
                (int (length (filter
                   (\<lambda>s. s > optimal_svht_coef_sigma_known beta / sqrt med * np_median S) S)))
                = Inr H_denoised \<and>
              diagonal_average (length x) H_denoised = Inr x_denoised \<and>
              denoise_svd svd quad x w None =
                Some (Inr (x_denoised,
                  int (length (filter
                    (\<lambda>s. s > optimal_svht_coef_sigma_known beta / sqrt med * np_median S) S)))) \<and>
              length x_denoised = length x \<and>
              (filter (\<lambda>s. s > optimal_svht_coef_sigma_known beta / sqrt med * np_median S) S = []
                 \<longrightarrow> x_denoised = replicate (length x) 0))"
proof -
  have H: "H = map (\<lambda>i. take n (drop i x)) [0..<m]"
    using hankel_embedding_valid [of w x] assms(5-7) by (simp add: N_def m_def n_def)
  have sh: "shape H = (m, n)"
    unfolding H using hankel_shape [of w x] assms(5,6) by (simp add: N_def m_def n_def)
  have m1: "1 \<le> m" and n1: "1 \<le> n" and mn: "m + n = Suc (length x)"
    using assms(5,6) unfolding N_def m_def n_def by linarith+
  have b0: "0 < beta" and b1: "beta \<le> 1"
    unfolding beta_def using aspect_ratio [OF m1 n1] by simp_all
  from median_positive [OF b0 b1 assms(12) assms(13) assms(14)]
  obtain med where med: "median_marcenko_pastur quad beta = Some (Inr med)" and pos: "0 < med"
    by blast
  let ?omega = "optimal_svht_coef_sigma_known beta / sqrt med"
  let ?r = "int (length (filter (\<lambda>s. s > ?omega * np_median S) S))"
  have omega: "optimal_svht_coef_sigma_unknown quad beta = Some (Inr ?omega)"
    by (simp add: optimal_svht_coef_sigma_unknown_def med)
  have "max m n \<noteq> 0" using m1 by simp
  then have rank: "select_rank quad H S w None = Some (Inr ?r)"
    unfolding select_rank_def sh optimal_svht_coef_def
    by (simp add: omega [unfolded beta_def] beta_def)
  have "?r \<le> int (length S)" by simp
  then have rk: "0 \<le> ?r" "?r \<le> int (min m n)" using assms(10) by simp_all
  from reconstruct_shape [OF assms(9) assms(11) m1 assms(10) rk]
  obtain Hd where rec: "truncate_reconstruct U S Vt ?r = Inr Hd" and shd: "shape Hd = (m, n)"
    and zero: "?r = 0 \<longrightarrow> (\<forall>i<m. \<forall>j<n. Hd ! i ! j = 0)"
    by blast
  from diagonal_average_length [OF n1 mn shd m1]
  obtain xd where avg: "diagonal_average (length x) Hd = Inr xd" and len: "length xd = length x"
    and z: "(\<forall>i<m. \<forall>j<n. Hd ! i ! j = 0) \<longrightarrow> xd = replicate (length x) 0"
    by blast
  have run: "denoise_svd svd quad x w None = Some (Inr (xd, ?r))"
    unfolding denoise_svd_def
    by (simp only: assms(7) assms(8) sum.case prod.case option.case rank rec avg)
  have none: "filter (\<lambda>s. s > ?omega * np_median S) S = [] \<longrightarrow> xd = replicate (length x) 0"
    using zero z by simp
  from med pos omega rec avg run len none show ?thesis by blast
qed

lemma unknown_at_one_bounds:
  "1 < optimal_svht_coef_sigma_known 1 / sqrt 2"
  "optimal_svht_coef_sigma_known 1 / sqrt 2 < 1.8"
proof -
  let ?c = "optimal_svht_coef_sigma_known 1 / sqrt 2"
  have pos: "0 \<le> ?c" by (simp add: known_at_one)
  have "sqrt 3 * sqrt 2 = sqrt (6::real)" by (simp add: real_sqrt_mult [symmetric])
  then have "?c = 4 / sqrt 6" by (simp add: known_at_one)
  then have sq: "?c ^ 2 = 8 / 3" by (simp add: power_divide)
  have "(1::real) ^ 2 < ?c ^ 2" unfolding sq by simp
  then show "1 < ?c" using pos by (rule power2_less_imp_less)
  have "?c ^ 2 < (1.8::real) ^ 2" unfolding sq by (simp add: power2_eq_square)
  then show "?c < 1.8" by (rule power2_less_imp_less) simp
qed

lemma median_two: "np_median [250, 25] = 275 / 2"
  by (simp add: np_median_def)

lemma threshold_between:
  fixes c :: real
  assumes "1 < c" and "c < 1.8"
  shows "c * (275 / 2) < 250" and "\<not> c * (275 / 2) < 25"
  using assms by linarith+

lemma rank_one:
  "filter (\<lambda>s. s > optimal_svht_coef_sigma_known 1 / sqrt 2 * np_median [250, 25]) [250, 25]
     = [250]"
  unfolding median_two
  using threshold_between [OF unknown_at_one_bounds] by (simp only: filter.simps if_True if_False)

lemma truncated_example:
  "truncate_reconstruct [[3/5, 4/5], [4/5, - (3/5)]] [250, 25] [[3/5, 4/5], [4/5, - (3/5)]] 1
     = Inr [[90, 120], [120, 160]]"
  by (simp add: truncate_reconstruct_def np_zeros_def slice_to_def matmul_def np_diag_def
      shape_def dot_def column_def upt_rec)

lemma averaged_example: "diagonal_average 3 [[90, 120], [120, 160]] = Inr [90, 120, 160]"
  by (simp add: diagonal_average_def diagonal_accumulate_def shape_def accumulate_def upt_rec
      numeral_eq_Suc)

theorem automatic_rank_selection_witness:
  "median_marcenko_pastur (\<lambda>f a b. (b - a) / 4) 1 = Some (Inr 2) \<and>
   denoise_svd (\<lambda>H. ([[3/5, 4/5], [4/5, - (3/5)]], [250, 25], [[3/5, 4/5], [4/5, - (3/5)]]))
     (\<lambda>f a b. (b - a) / 4) [106, 108, 169] 2 None = Some (Inr ([90, 120, 160], 1))"
proof -
  let ?Q = "[[3/5, 4/5], [4/5, - (3/5)]] :: matrix"
  let ?S = "[250, 25] :: vector"
  let ?x = "[106, 108, 169] :: vector"
  let ?quad = "(\<lambda>f a b. (b - a) / 4) :: quad_fun"
  have emb: "hankel_embedding ?x 2 = Inr [[106, 108], [108, 169]]"
    by (simp add: hankel_embedding_def sliding_window_view_def upt_rec numeral_2_eq_2)
  have beta: "real (min (nat (int (length ?x) - 2 + 1)) (nat 2)) /
              real (max (nat (int (length ?x) - 2 + 1)) (nat 2)) = 1"
    by simp
  have sh: "shape ?Q = (nat (int (length ?x) - 2 + 1), min (nat (int (length ?x) - 2 + 1)) (nat 2))"
    by (simp add: shape_def)
  have sh': "shape ?Q = (min (nat (int (length ?x) - 2 + 1)) (nat 2), nat 2)"
    by (simp add: shape_def)
  have len: "length ?S = min (nat (int (length ?x) - 2 + 1)) (nat 2)" by simp
  note inst = automatic_rank_selection [of 2 ?x "[[106, 108], [108, 169]]"
        "\<lambda>H. (?Q, ?S, ?Q)" ?Q ?S ?Q ?quad 0, unfolded beta, OF _ _ emb _ sh len sh']
  have "\<exists>med. median_marcenko_pastur ?quad 1 = Some (Inr med) \<and> 0 < med \<and>
           optimal_svht_coef_sigma_unknown ?quad 1 =
             Some (Inr (optimal_svht_coef_sigma_known 1 / sqrt med)) \<and>
           (\<exists>H_denoised x_denoised.
              truncate_reconstruct ?Q ?S ?Q
                (int (length (filter
                   (\<lambda>s. s > optimal_svht_coef_sigma_known 1 / sqrt med * np_median ?S) ?S)))
                = Inr H_denoised \<and>
              diagonal_average (length ?x) H_denoised = Inr x_denoised \<and>
              denoise_svd (\<lambda>H. (?Q, ?S, ?Q)) ?quad ?x 2 None =
                Some (Inr (x_denoised,
                  int (length (filter
                    (\<lambda>s. s > optimal_svht_coef_sigma_known 1 / sqrt med * np_median ?S) ?S)))) \<and>
              length x_denoised = length ?x \<and>
              (filter (\<lambda>s. s > optimal_svht_coef_sigma_known 1 / sqrt med * np_median ?S) ?S = []
                 \<longrightarrow> x_denoised = replicate (length ?x) 0))"
    by (rule inst) (simp_all add: marpas_linear)
  then obtain Hd xd where
    rec: "truncate_reconstruct ?Q ?S ?Q
            (int (length (filter
               (\<lambda>s. s > optimal_svht_coef_sigma_known 1 / sqrt 2 * np_median ?S) ?S))) = Inr Hd"
    and avg: "diagonal_average (length ?x) Hd = Inr xd"
    and run: "denoise_svd (\<lambda>H. (?Q, ?S, ?Q)) ?quad ?x 2 None =
                Some (Inr (xd, int (length (filter
                    (\<lambda>s. s > optimal_svht_coef_sigma_known 1 / sqrt 2 * np_median ?S) ?S))))"
    unfolding median_linear by auto
  have Hd: "Hd = [[90, 120], [120, 160]]"
    using rec unfolding rank_one by (simp add: truncated_example)
  have l3: "length ?x = 3" by simp
  have "xd = [90, 120, 160]"
    using avg unfolding l3 Hd averaged_example by simp
  then show ?thesis using run unfolding rank_one by (simp add: median_linear)
qed

section \<open>The smoothing stage\<close>

lemma every_second_map: "every_second (map f xs) = map f (every_second xs)"
  by (induction xs rule: every_second.induct) simp_all

lemma every_second_upt: "every_second (map f [a..<a + 2 * n]) = map (\<lambda>i. f (a + 2 * i)) [0..<n]"
proof (induction n arbitrary: a)
  case 0
  show ?case by simp
next
  case (Suc n)
  have "[a..<a + 2 * Suc n] = a # Suc a # [Suc (Suc a)..<Suc (Suc a) + 2 * n]"
    by (simp add: upt_conv_Cons)
  moreover have "[0..<Suc n] = 0 # map Suc [0..<n]"
    by (simp add: upt_conv_Cons map_Suc_upt del: upt_Suc)
  ultimately show ?case using Suc [of "Suc (Suc a)"] by (simp add: comp_def del: upt_Suc)
qed

lemma arange_unit: "np_arange 1 (real N + 1) 1 = map (\<lambda>i. 1 + real i) [0..<N]"
  by (simp add: np_arange_def)

lemma arange_half: "np_arange 1 (real N + 1) (1 / 2) = map (\<lambda>i. 1 + real i * (1 / 2)) [0..<2 * N]"
proof -
  have "(real N + 1 - 1) / (1 / 2) = real (2 * N)" by simp
  then have "nat \<lceil>(real N + 1 - 1) / (1 / 2)\<rceil> = 2 * N"
    by (simp only: ceiling_of_nat nat_int)
  then show ?thesis unfolding np_arange_def by (simp only:)
qed

lemma time2_every_second:
  "every_second (np_arange 1 (real N + 1) (1 / 2)) = np_arange 1 (real N + 1) 1"
  unfolding arange_unit arange_half
  using every_second_upt [of "\<lambda>i. 1 + real i * (1 / 2)" 0 N] by simp

text \<open>
  C10. Let the spline constructor return an interpolant \<open>cs\<close> for the knots \<open>1..N\<close> and the
  column, and let \<open>cs\<close> take the column's values at the knots (a cubic spline interpolates its
  data). Then every second point of \<^verbatim>\<open>np.arange(1, N+1, 0.5)\<close> is a knot, and the spline
  pass of lines 291 to 297 returns the column unchanged.
\<close>

theorem spline_round_trip:
  assumes "CubicSpline (np_arange 1 (real (length col) + 1) 1) col = Inr cs"
    and "map cs (np_arange 1 (real (length col) + 1) 1) = col"
  shows "spline_smoothing CubicSpline col = Inr col"
  by (simp add: spline_smoothing_def Let_def assms every_second_map time2_every_second
      assign_column_def)

theorem spline_round_trip_witness:
  "spline_smoothing
     (\<lambda>ts ys. if length ts < 2 then Inl (ValueError ''x must contain at least 2 elements.'')
               else Inr (\<lambda>t. ys ! 0 + (ys ! 1 - ys ! 0) * (t - ts ! 0) / (ts ! 1 - ts ! 0)))
     [2, 5] = Inr [2, 5]"
  by (rule spline_round_trip [where cs = "\<lambda>t. 2 + (5 - 2) * (t - 1) / (2 - 1)"])
     (simp_all add: np_arange_def upt_rec)

text \<open>
  C9. Let the Savitzky-Golay filter return an array of the length of its input and let the
  spline constructor return an interpolant. Then the smoothing stage (the filter, then the
  spline evaluated at step 0.5 and every second point kept) returns a series of exactly the
  length \<open>N\<close> of the denoised series; no assignment fails on a length mismatch.
\<close>

theorem smoothing_length:
  assumes "savgol_filter denoised FrameLen Order = Inr filtered"
    and "length filtered = length denoised"
    and "CubicSpline (np_arange 1 (real (length denoised) + 1) 1) filtered = Inr cs"
  shows "\<exists>smoothed. smoothing_stage savgol_filter CubicSpline denoised = Inr smoothed \<and>
           length smoothed = length denoised"
proof -
  have col: "assign_column (length denoised) filtered = Inr filtered"
    using assms(2) by (simp add: assign_column_def)
  have "length (every_second (map cs (np_arange 1 (real (length denoised) + 1) 0.5)))
          = length denoised"
    by (simp add: every_second_map time2_every_second arange_unit)
  then have "spline_smoothing CubicSpline filtered =
          Inr (every_second (map cs (np_arange 1 (real (length denoised) + 1) 0.5)))"
    using assms(2,3) by (simp add: spline_smoothing_def Let_def assign_column_def)
  then show ?thesis
    using \<open>length (every_second _) = length denoised\<close>
    by (simp add: smoothing_stage_def assms(1) col)
qed

theorem smoothing_length_witness:
  "\<exists>smoothed.
     smoothing_stage
       (\<lambda>xs W p. if W \<le> length xs then Inr xs
                  else Inl (ValueError ''window_length must be less than or equal to the size of x''))
       (\<lambda>ts ys. if length ts < 2 then Inl (ValueError ''x must contain at least 2 elements.'')
                 else Inr (\<lambda>t. 7))
       [7, 7, 7, 7, 7, 7, 7, 7, 7, 7, 7] = Inr smoothed \<and>
     length smoothed = 11"
proof -
  let ?savgol = "\<lambda>(xs::vector) (W::nat) (p::nat). if W \<le> length xs then Inr xs
                  else Inl (ValueError ''window_length must be less than or equal to the size of x'')"
  let ?spline = "\<lambda>(ts::vector) (ys::vector).
                   if length ts < 2 then Inl (ValueError ''x must contain at least 2 elements.'')
                   else Inr (\<lambda>t::real. 7::real)"
  let ?x = "[7, 7, 7, 7, 7, 7, 7, 7, 7, 7, 7] :: vector"
  have f: "?savgol ?x FrameLen Order = Inr ?x" by (simp add: FrameLen_def)
  have s: "?spline (np_arange 1 (real (length ?x) + 1) 1) ?x = Inr (\<lambda>t. 7)"
    by (simp add: np_arange_def)
  from smoothing_length [of ?savgol ?x ?x ?spline "\<lambda>t. 7", OF f refl s]
  obtain smoothed where "smoothing_stage ?savgol ?spline ?x = Inr smoothed"
    and "length smoothed = length ?x" by blast
  moreover have "length ?x = 11" by simp
  ultimately show ?thesis by (intro exI [of _ smoothed]) (simp only: simp_thms)
qed

end
